theory Spec2Isabelle
  imports Main "HOL-Library.Sublist"
begin

section \<open>Strings and paths\<close>

text \<open>
  JavaScript strings are modelled as \<open>string\<close>. Only the string operations the
  sources use are defined: \<open>String.prototype.includes\<close>, \<open>startsWith\<close>,
  \<open>toLowerCase\<close> (on ASCII letters), and Node's \<open>path.join\<close>, \<open>path.basename\<close>,
  \<open>path.dirname\<close> and \<open>path.extname\<close> on paths that are already normalised
  (no \<open>.\<close> or \<open>..\<close> segments, no doubled separators).
\<close>

fun str_includes :: "string \<Rightarrow> string \<Rightarrow> bool" where
  "str_includes [] sub = (sub = [])"
| "str_includes (c # cs) sub = (take (length sub) (c # cs) = sub \<or> str_includes cs sub)"

definition startsWith :: "string \<Rightarrow> string \<Rightarrow> bool" where
  "startsWith s p = (take (length p) s = p)"

definition lowerChar :: "char \<Rightarrow> char" where
  "lowerChar c =
     (case map_of (zip ''ABCDEFGHIJKLMNOPQRSTUVWXYZ'' ''abcdefghijklmnopqrstuvwxyz'') c of
        Some l \<Rightarrow> l
      | None \<Rightarrow> c)"

definition toLowerCase :: "string \<Rightarrow> string" where
  "toLowerCase s = map lowerChar s"

definition path_join :: "string \<Rightarrow> string \<Rightarrow> string" where
  "path_join a b = a @ ''/'' @ b"

definition basename :: "string \<Rightarrow> string" where
  "basename p = rev (takeWhile (\<lambda>c. c \<noteq> CHR ''/'') (rev p))"

definition dirname :: "string \<Rightarrow> string" where
  "dirname p = rev (drop 1 (dropWhile (\<lambda>c. c \<noteq> CHR ''/'') (rev p)))"

text \<open>
  \<open>path.extname\<close>: the part of the last path segment from its last dot on; empty when
  the segment has no dot, or when its only dot is its first character.
\<close>

definition extname :: "string \<Rightarrow> string" where
  "extname p =
     (let b = basename p;
          e = rev (takeWhile (\<lambda>c. c \<noteq> CHR ''.'') (rev b))
      in if length e = length b \<or> length e + 1 = length b \<or> b = ''..'' then []
         else CHR ''.'' # e)"

section \<open>The data model (types.ts)\<close>

record Config =
  outputDir :: string
  dryRun :: bool
  resume :: bool
  minWidth :: int
  minHeight :: int
  skipDuplicates :: bool
  delayMs :: int
  maxRetries :: int

record CrawlState =
  visitedUrls :: "string set"
  allowedDomains :: "string set"
  downloadedUrls :: "string set"
  contentHashes :: "string set"

definition MEDIA_EXTENSIONS_images :: "string list" where
  "MEDIA_EXTENSIONS_images =
     [''jpg'', ''jpeg'', ''png'', ''gif'', ''webp'', ''svg'', ''avif'', ''ico'']"

definition MEDIA_EXTENSIONS_videos :: "string list" where
  "MEDIA_EXTENSIONS_videos = [''mp4'', ''webm'', ''mov'', ''avi'', ''mkv'']"

section \<open>The world: file system, network, log\<close>

text \<open>
  The file system is an association list from path to file content, in directory-walk
  order, plus the set of directories. \<open>fs.unlink\<close> of an existing file removes it;
  of a missing file it throws (the callers catch). Permission and disk errors are not
  modelled: a write or unlink of an accessible path succeeds.
\<close>

type_synonym filesystem = "(string \<times> string) list"

definition fs_lookup :: "filesystem \<Rightarrow> string \<Rightarrow> string option" where
  "fs_lookup fs p = map_of fs p"

fun fs_write :: "string \<Rightarrow> string \<Rightarrow> filesystem \<Rightarrow> filesystem" where
  "fs_write p c [] = [(p, c)]"
| "fs_write p c ((q, d) # fs) = (if q = p then (p, c) # fs else (q, d) # fs_write p c fs)"

definition fs_unlink :: "string \<Rightarrow> filesystem \<Rightarrow> filesystem" where
  "fs_unlink p fs = filter (\<lambda>(q, _). q \<noteq> p) fs"

text \<open>
  A log message keeps the template of the source: literal and interpolated strings,
  interpolated numbers, and byte counts that the source formats with \<open>formatBytes\<close>.
\<close>

datatype part = S string | N int | Bytes nat

datatype level = Debug | Info | Warn | Error | Success | Console

text \<open>
  The trace records, in program order, every log line, every addition to a set of the
  crawl state, every mutating file-system call, every HTTP request, page navigation and
  timer. Reads of the file system (\<open>stat\<close>, hashing, dimensions) leave no event.
\<close>

datatype event =
    Log level "part list"
  | AddVisited string
  | AddDownloaded string
  | AddHash string
  | Mkdir string
  | Write string
  | Unlink string
  | HttpGet string
  | Sleep int
  | Goto string

record world =
  state :: CrawlState
  files :: filesystem
  dirs :: "string set"
  reqs :: nat
  browser :: bool
  shuttingDown :: bool
  trace :: "event list"

definition emit :: "event \<Rightarrow> world \<Rightarrow> world" where
  "emit ev w = w\<lparr>trace := trace w @ [ev]\<rparr>"

definition logger :: "level \<Rightarrow> part list \<Rightarrow> world \<Rightarrow> world" where
  "logger l m w = emit (Log l m) w"

text \<open>\<open>fs.mkdir(p, {recursive: true})\<close>: the directory and its ancestors exist afterwards.\<close>

function ancestors :: "string \<Rightarrow> string list" where
  "ancestors p = (if dirname p = [] \<or> length (dirname p) \<ge> length p then [p]
                  else p # ancestors (dirname p))"
  by pat_completeness auto
termination
  by (relation "measure length") auto

declare ancestors.simps [simp del]

definition mkdir_recursive :: "string \<Rightarrow> world \<Rightarrow> world" where
  "mkdir_recursive p w = emit (Mkdir p) (w\<lparr>dirs := dirs w \<union> set (ancestors p)\<rparr>)"

text \<open>\<open>fs.unlink(p).catch(() => {})\<close>: the call is made; a missing file is ignored.\<close>

definition unlink_quiet :: "string \<Rightarrow> world \<Rightarrow> world" where
  "unlink_quiet p w = emit (Unlink p) (w\<lparr>files := fs_unlink p (files w)\<rparr>)"

text \<open>
  What one HTTP request yields. A response carries its status code, its
  \<open>Location\<close> header and what happens to the body piped into the file: the file
  stream finishes; the file stream fails after some bytes were written, or cannot be
  opened (both raise its \<open>error\<close> event); or the response itself breaks off after
  some bytes, which raises an event on \<open>response\<close> that \<open>downloadFile\<close> does
  not listen to, so that neither \<open>finish\<close> nor \<open>error\<close> of the file stream
  ever comes.
\<close>

datatype body = Finish string | StreamError string | OpenError | Truncated string

datatype response = RequestError | RequestTimeout | Response nat "string option" body

datatype navigation = NewPageFails | GotoFails | Loaded "string list" "string list" "string list"

text \<open>
  The collaborators that are not part of the sources under study: the URL utilities,
  the content primitives, the HTTP client and the page renderer. \<open>validUrl\<close> tells
  whether \<open>new URL(url)\<close> accepts a string, which it does for absolute URLs only; for
  any other string it throws. The HTTP client is
  indexed by the number of requests issued so far, so that a retry can get another
  answer than the attempt before it. A rendered page offers the attribute values that
  the three DOM queries of the crawler read: all \<open>src\<close>/\<open>href\<close> values, the media
  candidates, and the anchor targets.
\<close>

record env =
  getDomain :: "string \<Rightarrow> string"
  getFilenameFromUrl :: "string \<Rightarrow> string"
  normalizeUrl :: "string \<Rightarrow> string \<Rightarrow> string option"
  isMediaUrl :: "string \<Rightarrow> bool"
  ensureUniqueFilepath :: "filesystem \<Rightarrow> string \<Rightarrow> string"
  getFileHash :: "string \<Rightarrow> string"
  getImageDimensions :: "string \<Rightarrow> (int \<times> int) option"
  getVisualHash :: "string \<Rightarrow> string option"
  areVisuallySimular :: "string \<Rightarrow> string \<Rightarrow> bool"
  validUrl :: "string \<Rightarrow> bool"
  httpGet :: "nat \<Rightarrow> string \<Rightarrow> response"
  render :: "string \<Rightarrow> navigation"
  interrupted :: "string \<Rightarrow> bool"

section \<open>Downloader (downloader.ts)\<close>

text \<open>
  \<open>downloadFile\<close> yields \<open>Some\<close> when its promise is resolved, with the boolean it
  is resolved with, and \<open>None\<close> when the caller never gets an answer. The promise is
  resolved by the \<open>finish\<close> or \<open>error\<close> event of the file stream, by the
  \<open>error\<close> or \<open>timeout\<close> event of the request, and by a status other than 200.
  A 301 or 302 with a non-empty \<open>Location\<close> re-issues the download against that
  target and resolves the promise when the inner promise is resolved
  (\<open>.then(resolve)\<close>, line 33). The caller gets no answer in four cases:

    \<^item> \<open>new URL(url)\<close> (line 21) throws for the URL the retry loop passes: the promise
      is rejected, and \<open>processDownload\<close>, which awaits it outside any \<open>try\<close>, is
      rejected with it, so nothing after line 114 runs;

    \<^item> \<open>new URL\<close> throws for the \<open>Location\<close> of a redirect: the inner promise is
      rejected, \<open>.then(resolve)\<close> has no rejection handler, and the outer promise
      stays pending;

    \<^item> the response breaks off mid-body: no event that \<open>downloadFile\<close> listens to
      is raised, and the promise stays pending;

    \<^item> redirects follow one another without end.
\<close>

definition pipeBody :: "string \<Rightarrow> body \<Rightarrow> world \<Rightarrow> (bool \<times> world) option" where
  "pipeBody filepath b w =
     (case b of
        Finish content \<Rightarrow>
          Some (True, emit (Write filepath) (w\<lparr>files := fs_write filepath content (files w)\<rparr>))
      | StreamError content \<Rightarrow>
          Some (False, emit (Write filepath) (w\<lparr>files := fs_write filepath content (files w)\<rparr>))
      | OpenError \<Rightarrow> Some (False, w)
      | Truncated content \<Rightarrow> None)"

definition request :: "string \<Rightarrow> world \<Rightarrow> world" where
  "request url w = emit (HttpGet url) (w\<lparr>reqs := Suc (reqs w)\<rparr>)"

definition isRedirect :: "response \<Rightarrow> bool" where
  "isRedirect r =
     (case r of
        Response code (Some loc) b \<Rightarrow> (code = 301 \<or> code = 302) \<and> loc \<noteq> []
      | _ \<Rightarrow> False)"

partial_function (option) downloadFile ::
  "env \<Rightarrow> string \<Rightarrow> string \<Rightarrow> world \<Rightarrow> (bool \<times> world) option" where
  "downloadFile e url filepath w =
     (if \<not> validUrl e url then None
      else
        (case httpGet e (reqs w) url of
           RequestError \<Rightarrow> Some (False, request url w)
         | RequestTimeout \<Rightarrow> Some (False, request url w)
         | Response code location b \<Rightarrow>
             (if (code = 301 \<or> code = 302) \<and> location \<noteq> None \<and> location \<noteq> Some []
              then downloadFile e (the location) filepath (request url w)
              else if code \<noteq> 200
              then Some (False, logger Debug [S ''Failed to download ('', N (int code), S ''): '',
                                              S url]
                                  (request url w))
              else pipeBody filepath b (request url w))))"

declare downloadFile.simps [code]

text \<open>
  The retry loop of \<open>processDownload\<close> (lines 108 to 119), returning the final values
  of \<open>success\<close> and of the loop counter \<open>retry\<close>.
\<close>

function retryLoop ::
  "env \<Rightarrow> Config \<Rightarrow> string \<Rightarrow> string \<Rightarrow> int \<Rightarrow> world \<Rightarrow> (bool \<times> int \<times> world) option" where
  "retryLoop e c url filepath retry w =
     (if retry < maxRetries c then
        (case downloadFile e url filepath (if retry > 0 then emit (Sleep 1000) w else w) of
           None \<Rightarrow> None
         | Some (success, w') \<Rightarrow>
             if success then Some (True, retry, w')
             else retryLoop e c url filepath (retry + 1) w')
      else Some (False, retry, w))"
  by pat_completeness auto
termination
  by (relation "measure (\<lambda>(e, c, url, filepath, retry, w). nat (maxRetries c - retry))") auto

declare retryLoop.simps [simp del]

definition imageExtensions :: "string list" where
  "imageExtensions = [''jpg'', ''jpeg'', ''png'', ''gif'', ''webp'', ''avif'']"

text \<open>
  Lines 152 to 162: the dimension filter rejects a file with a recognised image
  extension whose dimensions can be read and fall below a configured minimum. It
  yields the offending dimensions, or \<open>None\<close> when the file passes.
\<close>

definition tooSmall :: "env \<Rightarrow> Config \<Rightarrow> string \<Rightarrow> string \<Rightarrow> (int \<times> int) option" where
  "tooSmall e c filepath content =
     (let ext = drop 1 (toLowerCase (extname filepath)) in
      if ext \<in> set imageExtensions then
        (case getImageDimensions e content of
           Some (width, height) \<Rightarrow>
             if (minWidth c > 0 \<and> width < minWidth c) \<or>
                (minHeight c > 0 \<and> height < minHeight c)
             then Some (width, height) else None
         | None \<Rightarrow> None)
      else None)"

text \<open>Lines 151 to 175: the dimension filter, the success line and the rate limit.\<close>

definition checkDimensions :: "env \<Rightarrow> Config \<Rightarrow> string \<Rightarrow> string \<Rightarrow> string \<Rightarrow> world \<Rightarrow> world" where
  "checkDimensions e c filename filepath content w =
     (case tooSmall e c filepath content of
        Some (width, height) \<Rightarrow>
          unlink_quiet filepath
            (logger Debug [S ''Skipping (too small): '', S filename, S '' ('',
                           N width, S ''x'', N height, S '')''] w)
      | None \<Rightarrow>
          (let w1 = logger Success [S ''Downloaded: '', S filename] w
           in if delayMs c > 0 then emit (Sleep (delayMs c)) w1 else w1))"

text \<open>Lines 127 to 149: the saved file is checked for content and for a known hash.\<close>

definition checkSaved :: "env \<Rightarrow> Config \<Rightarrow> string \<Rightarrow> string \<Rightarrow> world \<Rightarrow> world" where
  "checkSaved e c filename filepath w =
     (case fs_lookup (files w) filepath of
        None \<Rightarrow> logger Debug [S ''Skipping (file not found): '', S filename] w
      | Some content \<Rightarrow>
          if length content = 0
          then emit (Unlink filepath)
                 ((logger Debug [S ''Skipping (empty file): '', S filename] w)
                    \<lparr>files := fs_unlink filepath (files w)\<rparr>)
          else if skipDuplicates c then
            (let fileHash = getFileHash e content in
             if fileHash \<in> contentHashes (state w)
             then unlink_quiet filepath (logger Debug [S ''Skipping duplicate: '', S filename] w)
             else checkDimensions e c filename filepath content
                    (emit (AddHash fileHash)
                       (w\<lparr>state := (state w)\<lparr>contentHashes :=
                                      insert fileHash (contentHashes (state w))\<rparr>\<rparr>)))
          else checkDimensions e c filename filepath content w)"

text \<open>Lines 81 to 125: destination, resume check, dry run, fetch with retries.\<close>

definition fetchInto :: "env \<Rightarrow> Config \<Rightarrow> string \<Rightarrow> string \<Rightarrow> world \<Rightarrow> world option" where
  "fetchInto e c url domain w =
     (let domainDir = path_join (outputDir c) domain;
          w1 = mkdir_recursive domainDir w;
          filename = getFilenameFromUrl e url;
          filepath0 = path_join domainDir filename
      in if resume c \<and> (case fs_lookup (files w1) filepath0 of
                           Some content \<Rightarrow> length content > 0 | None \<Rightarrow> False)
         then Some (logger Debug [S ''Skipping (already exists): '', S filename] w1)
         else
           (let filepath = ensureUniqueFilepath e (files w1) filepath0 in
            if dryRun c
            then Some (logger Console [S ''[DRY-RUN] Would download: '', S url, S '' -> '',
                                       S filepath] w1)
            else
              (case retryLoop e c url filepath 0 w1 of
                 None \<Rightarrow> None
               | Some (success, retry, w2) \<Rightarrow>
                   if \<not> success
                   then Some (unlink_quiet filepath (logger Error [S ''Failed: '', S url] w2))
                   else Some (checkSaved e c filename filepath w2))))"

definition processDownload :: "env \<Rightarrow> Config \<Rightarrow> string \<Rightarrow> world \<Rightarrow> world option" where
  "processDownload e c url w =
     (if url \<in> downloadedUrls (state w) then Some w
      else
        (let domain = getDomain e url in
         if domain \<notin> allowedDomains (state w)
         then Some (logger Debug [S ''Skipping (domain not allowed): '', S domain] w)
         else fetchInto e c url domain
                (emit (AddDownloaded url)
                   (w\<lparr>state := (state w)\<lparr>downloadedUrls :=
                                  insert url (downloadedUrls (state w))\<rparr>\<rparr>))))"

section \<open>Crawler (crawler.ts)\<close>

text \<open>\<open>[...new Set(xs)]\<close>: the first occurrence of every element, in order.\<close>

definition dedupe :: "'a list \<Rightarrow> 'a list" where
  "dedupe xs = rev (remdups (rev xs))"

text \<open>
  \<open>normalizeUrl\<close> followed by the truthiness test of the callers: \<open>null\<close> and the
  empty string are both dropped.
\<close>

definition normalized :: "env \<Rightarrow> string \<Rightarrow> string \<Rightarrow> string option" where
  "normalized e url baseUrl =
     (case normalizeUrl e url baseUrl of
        Some n \<Rightarrow> if n = [] then None else Some n
      | None \<Rightarrow> None)"

text \<open>
  \<open>extractMediaUrls\<close>, lines 301 to 311: what the function does with the attribute
  values the page yielded. A failing page evaluation yields no values.
\<close>

definition extractMediaUrls :: "env \<Rightarrow> string list \<Rightarrow> string \<Rightarrow> string list" where
  "extractMediaUrls e urls baseUrl =
     dedupe (List.map_filter
       (\<lambda>url. if url = [] then None
              else (case normalized e url baseUrl of
                      Some n \<Rightarrow> if isMediaUrl e n then Some n else None
                    | None \<Rightarrow> None)) urls)"

text \<open>\<open>extractPageLinks\<close>, lines 331 to 355.\<close>

definition pageLink :: "env \<Rightarrow> string \<Rightarrow> string \<Rightarrow> string \<Rightarrow> string option" where
  "pageLink e baseUrl sourceDomain link =
     (if startsWith link ''javascript:'' \<or> startsWith link ''mailto:'' then None
      else if \<not> startsWith link ''#/'' \<and> startsWith link ''#'' then None
      else
        (case normalized e (if startsWith link ''#/'' then drop 1 link else link) baseUrl of
           None \<Rightarrow> None
         | Some n \<Rightarrow>
             if getDomain e n = sourceDomain \<or> getDomain e n = ''www.'' @ sourceDomain
             then Some n else None))"

definition extractPageLinks :: "env \<Rightarrow> string list \<Rightarrow> string \<Rightarrow> string \<Rightarrow> string list" where
  "extractPageLinks e links baseUrl sourceDomain =
     dedupe (List.map_filter (pageLink e baseUrl sourceDomain) links)"

datatype error = BrowserNotInitialized | NewPageFailed

definition recognized :: "string \<Rightarrow> bool" where
  "recognized domain =
     (str_includes domain ''cdn'' \<or> str_includes domain ''cloudinary'' \<or>
      str_includes domain ''imgix'' \<or> str_includes domain ''images'' \<or>
      str_includes domain ''static'' \<or> str_includes domain ''squarespace'')"

text \<open>Lines 391 to 399: the hosts of the media URLs among the attribute values.\<close>

definition observe :: "env \<Rightarrow> string \<Rightarrow> string set \<Rightarrow> string \<Rightarrow> string set" where
  "observe e url allowed rawUrl =
     (case normalized e rawUrl url of
        Some n \<Rightarrow>
          if isMediaUrl e n \<and> getDomain e n \<noteq> [] then insert (getDomain e n) allowed
          else allowed
      | None \<Rightarrow> allowed)"

text \<open>
  \<open>discoverAllowedDomains\<close>. Without a browser the function throws; so does a failing
  \<open>newPage\<close>, which is outside the \<open>try\<close>. A failing navigation is caught and the
  set built so far, the seed host alone, is returned.
\<close>

definition discoverAllowedDomains :: "env \<Rightarrow> string \<Rightarrow> world \<Rightarrow> error + string set \<times> world" where
  "discoverAllowedDomains e url w =
     (let sourceDomain = getDomain e url in
      if \<not> browser w then Inl BrowserNotInitialized
      else
        (case render e url of
           NewPageFails \<Rightarrow> Inl NewPageFailed
         | GotoFails \<Rightarrow>
             Inr ({sourceDomain},
                  logger Error [S ''Failed to discover domains: '']
                    (emit (Goto url) (logger Debug [S ''Discovering domains from: '', S url] w)))
         | Loaded allUrls media links \<Rightarrow>
             (let allowedDomains = foldl (observe e url) {sourceDomain} allUrls;
                  filteredDomains =
                    insert sourceDomain
                      (Set.filter (\<lambda>domain. domain = sourceDomain \<or> recognized domain)
                         allowedDomains)
              in Inr (filteredDomains,
                      emit (Goto url) (logger Debug [S ''Discovering domains from: '', S url] w)))))"

text \<open>
  \<open>crawlPage\<close>, with the loop over the links of a page as \<open>crawlLinks\<close>. The flag
  \<open>streaming\<close> says that a downloader was passed. The shutdown flag may be raised from
  outside while a page loads: \<open>interrupted e url\<close> says that this happens during the
  navigation to \<open>url\<close>. The per-page timeout of the configuration is not modelled: a
  navigation that times out is one that fails.
\<close>

definition navigate :: "env \<Rightarrow> string \<Rightarrow> world \<Rightarrow> world" where
  "navigate e url w =
     (emit (Goto url) w)\<lparr>shuttingDown := shuttingDown w \<or> interrupted e url\<rparr>"

definition markVisited :: "string \<Rightarrow> int \<Rightarrow> world \<Rightarrow> world" where
  "markVisited url depth w =
     logger Info [S ''Crawling (depth='', N depth, S ''): '', S url]
       (emit (AddVisited url)
          (w\<lparr>state := (state w)\<lparr>visitedUrls := insert url (visitedUrls (state w))\<rparr>\<rparr>))"

definition announceLinks :: "string list \<Rightarrow> world \<Rightarrow> world" where
  "announceLinks links w =
     foldl (\<lambda>w l. logger Debug [S ''  Link: '', S l] w)
       (logger Info [S ''Found '', N (int (length links)), S '' page links to crawl''] w)
       (take 10 links)"

text \<open>
  Lines 470 to 477. With a downloader the source calls
  \<open>downloader.queueUrls(extractedMedia)\<close>; the class \<open>Downloader\<close> has no method of
  that name, so the call throws a \<open>TypeError\<close>, for which \<open>None\<close> stands. Without
  a downloader the media URLs are kept for the result.
\<close>

definition handOver :: "bool \<Rightarrow> string list \<Rightarrow> world \<Rightarrow> string list option \<times> world" where
  "handOver streaming extractedMedia w =
     (let w1 = logger Info [S ''Found '', N (int (length extractedMedia)), S '' media files''] w
      in if streaming then (None, w1) else (Some extractedMedia, w1))"

text \<open>
  The \<open>catch\<close> of lines 504 to 508 handles a failed navigation and the exception of
  \<open>handOver\<close> alike: it logs, unless the crawler is shutting down, and returns the
  media URLs collected so far, of which there are none.
\<close>

function crawlPage :: "env \<Rightarrow> bool \<Rightarrow> string \<Rightarrow> int \<Rightarrow> string \<Rightarrow> world \<Rightarrow> string list \<times> world"
  and crawlLinks :: "env \<Rightarrow> bool \<Rightarrow> string list \<Rightarrow> int \<Rightarrow> string \<Rightarrow> world \<Rightarrow> string list \<times> world"
  where
  "crawlPage e streaming url depth sourceDomain w =
     (if shuttingDown w \<or> depth < 0 \<or> url \<in> visitedUrls (state w) then ([], w)
      else if \<not> browser w \<or> shuttingDown w then ([], markVisited url depth w)
      else
        (case render e url of
           NewPageFails \<Rightarrow> ([], markVisited url depth w)
         | GotoFails \<Rightarrow>
             (let w2 = navigate e url (markVisited url depth w)
              in ([], if \<not> shuttingDown w2
                      then logger Warn [S ''Could not fetch: '', S url] w2 else w2))
         | Loaded allUrls media links \<Rightarrow>
             (case handOver streaming (extractMediaUrls e media url)
                     (navigate e url (markVisited url depth w)) of
                (None, w4) \<Rightarrow>
                  ([], if \<not> shuttingDown w4
                       then logger Warn [S ''Could not fetch: '', S url] w4 else w4)
              | (Some mediaUrls, w4) \<Rightarrow>
                  if depth > 0 then
                    (case crawlLinks e streaming (extractPageLinks e links url sourceDomain)
                            (depth - 1) sourceDomain
                            (announceLinks (extractPageLinks e links url sourceDomain) w4) of
                       (linkMediaUrls, w7) \<Rightarrow> (mediaUrls @ linkMediaUrls, w7))
                  else (mediaUrls, w4))))"
| "crawlLinks e streaming [] depth sourceDomain w = ([], w)"
| "crawlLinks e streaming (link # links) depth sourceDomain w =
     (if shuttingDown w then ([], w)
      else
        (case crawlPage e streaming link depth sourceDomain w of
           (linkMediaUrls, w1) \<Rightarrow>
             (case crawlLinks e streaming links depth sourceDomain w1 of
                (rest, w2) \<Rightarrow> (linkMediaUrls @ rest, w2))))"
  by pat_completeness auto
termination
  by (relation "measures
        [\<lambda>x. case x of Inl (e, s, url, depth, src, w) \<Rightarrow> nat (depth + 1)
                      | Inr (e, s, links, depth, src, w) \<Rightarrow> max 1 (nat (depth + 2)),
         \<lambda>x. case x of Inl _ \<Rightarrow> 1 | Inr _ \<Rightarrow> 0,
         \<lambda>x. case x of Inl _ \<Rightarrow> 0 | Inr (e, s, links, depth, src, w) \<Rightarrow> length links]")
     auto

declare crawlPage.simps [simp del]

text \<open>The links the crawler follows from a page, and the pages within \<open>n\<close> hops.\<close>

definition linksOf :: "env \<Rightarrow> string \<Rightarrow> string \<Rightarrow> string list" where
  "linksOf e sourceDomain url =
     (case render e url of
        Loaded allUrls media links \<Rightarrow> extractPageLinks e links url sourceDomain
      | _ \<Rightarrow> [])"

fun reach :: "env \<Rightarrow> string \<Rightarrow> nat \<Rightarrow> string \<Rightarrow> string set" where
  "reach e sourceDomain 0 url = {url}"
| "reach e sourceDomain (Suc n) url =
     insert url (\<Union>v \<in> set (linksOf e sourceDomain url). reach e sourceDomain n v)"

fun gotos :: "event list \<Rightarrow> string list" where
  "gotos [] = []"
| "gotos (Goto u # evs) = u # gotos evs"
| "gotos (ev # evs) = gotos evs"

fun adds :: "event list \<Rightarrow> string list" where
  "adds [] = []"
| "adds (AddVisited u # evs) = u # adds evs"
| "adds (ev # evs) = adds evs"

text \<open>Every navigation in \<open>evs\<close> goes to a URL marked as visited before it.\<close>

fun markedFirst :: "string set \<Rightarrow> event list \<Rightarrow> bool" where
  "markedFirst vs [] = True"
| "markedFirst vs (AddVisited u # evs) = markedFirst (insert u vs) evs"
| "markedFirst vs (Goto u # evs) = (u \<in> vs \<and> markedFirst vs evs)"
| "markedFirst vs (ev # evs) = markedFirst vs evs"

section \<open>Grouping and sorting as the dedup code does them\<close>

text \<open>
  \<open>Array.prototype.sort\<close> with a comparator is stable; it is modelled by a stable
  insertion sort, which yields the same result for every comparator that is a total
  preorder.
\<close>

fun insert_by :: "('a \<Rightarrow> 'a \<Rightarrow> int) \<Rightarrow> 'a \<Rightarrow> 'a list \<Rightarrow> 'a list" where
  "insert_by cmp x [] = [x]"
| "insert_by cmp x (y # ys) = (if cmp x y \<le> 0 then x # y # ys else y # insert_by cmp x ys)"

definition sort_by :: "('a \<Rightarrow> 'a \<Rightarrow> int) \<Rightarrow> 'a list \<Rightarrow> 'a list" where
  "sort_by cmp xs = foldr (insert_by cmp) xs []"

text \<open>
  A \<open>Map\<close> from key to array, filled in one pass: a new key opens a group at the end,
  a known key appends to its group. Iteration is in insertion order. Elements whose key
  is falsy (\<open>undefined\<close>, \<open>null\<close> or the empty string) are skipped.
\<close>

fun group_insert :: "string \<Rightarrow> 'a \<Rightarrow> (string \<times> 'a list) list \<Rightarrow> (string \<times> 'a list) list" where
  "group_insert k x [] = [(k, [x])]"
| "group_insert k x ((k', xs) # groups) =
     (if k' = k then (k', xs @ [x]) # groups else (k', xs) # group_insert k x groups)"

definition truthy :: "string option \<Rightarrow> bool" where
  "truthy h = (case h of Some s \<Rightarrow> s \<noteq> [] | None \<Rightarrow> False)"

definition groupBy :: "('a \<Rightarrow> string option) \<Rightarrow> 'a list \<Rightarrow> (string \<times> 'a list) list" where
  "groupBy key xs =
     foldl (\<lambda>groups x. if truthy (key x) then group_insert (the (key x)) x groups else groups)
       [] xs"

section \<open>VisualDeduplicator (deduplicator.ts, the three-phase version)\<close>

record ImageInfo =
  path :: string
  filename :: string
  baseName :: string
  ext :: string
  pixels :: int
  size_bytes :: int
  contentHash :: "string option"

text \<open>The element type of the array built in \<open>removeVisualDuplicates\<close>.\<close>

record HashedImage =
  h_path :: string
  h_hash :: string
  h_pixels :: int
  h_size :: int

definition under :: "string \<Rightarrow> string \<Rightarrow> bool" where
  "under dir p = startsWith p (dir @ ''/'')"

text \<open>\<open>findImageFiles\<close>: the recursive walk, in the order of the file system.\<close>

definition findImageFiles :: "filesystem \<Rightarrow> string \<Rightarrow> string list" where
  "findImageFiles fs dir =
     map fst (filter (\<lambda>(p, content). under dir p \<and>
        toLowerCase (extname p) \<in> set [''.jpg'', ''.jpeg'', ''.png'', ''.gif'', ''.webp'', ''.avif''])
        fs)"

text \<open>\<open>name.replace(/_\d+$/, '')\<close>.\<close>

definition isDigit :: "char \<Rightarrow> bool" where
  "isDigit c = (c \<in> set ''0123456789'')"

definition stripNumberSuffix :: "string \<Rightarrow> string" where
  "stripNumberSuffix name =
     (let r = rev name; ds = takeWhile isDigit r; rest = dropWhile isDigit r
      in if ds \<noteq> [] \<and> rest \<noteq> [] \<and> hd rest = CHR ''_'' then rev (tl rest) else name)"

definition pixelsOf :: "env \<Rightarrow> string \<Rightarrow> int" where
  "pixelsOf e content =
     (case getImageDimensions e content of Some (width, height) \<Rightarrow> width * height | None \<Rightarrow> 0)"

text \<open>Lines 38 to 62: the description of one image file; a file that cannot be read is skipped.\<close>

definition imageInfo :: "env \<Rightarrow> filesystem \<Rightarrow> string \<Rightarrow> ImageInfo option" where
  "imageInfo e fs filepath =
     (case fs_lookup fs filepath of
        None \<Rightarrow> None
      | Some content \<Rightarrow>
          (let filename = basename filepath;
               ext = extname filename;
               nameWithoutExt = (if ext = [] then []
                                 else take (length filename - length ext) filename)
           in Some \<lparr>path = filepath, filename = filename,
                     baseName = stripNumberSuffix nameWithoutExt, ext = toLowerCase ext,
                     pixels = pixelsOf e content, size_bytes = int (length content),
                     contentHash = None\<rparr>))"

text \<open>
  \<open>fs.unlink\<close> inside \<open>try\<close>/\<open>catch\<close>: the call is made; when the file is there it
  is removed and the line is logged, when it is not the error is swallowed.
\<close>

definition tryUnlink :: "string \<Rightarrow> part list \<Rightarrow> world \<Rightarrow> bool \<times> world" where
  "tryUnlink p line w =
     (case fs_lookup (files w) p of
        Some content \<Rightarrow>
          (True, logger Debug line (emit (Unlink p) (w\<lparr>files := fs_unlink p (files w)\<rparr>)))
      | None \<Rightarrow> (False, emit (Unlink p) w))"

text \<open>The loop \<open>for (let i = 1; i < group.length; i++)\<close> over the paths and their log lines.\<close>

fun removeRest :: "(string \<times> part list) list \<Rightarrow> int \<Rightarrow> world \<Rightarrow> int \<times> world" where
  "removeRest [] removed w = (removed, w)"
| "removeRest ((p, line) # rest) removed w =
     (case tryUnlink p line w of
        (True, w') \<Rightarrow> removeRest rest (removed + 1) w'
      | (False, w') \<Rightarrow> removeRest rest removed w')"

text \<open>
  What the three phases do with one group, each with its own comparator and log lines
  (lines 111 to 131, 162 to 178 and 236 to 255): a group of fewer than two is left
  alone; otherwise the group is sorted, its first member is kept and the others are
  unlinked.
\<close>

definition removeAllButBest ::
  "('a \<Rightarrow> 'a \<Rightarrow> int) \<Rightarrow> ('a \<Rightarrow> string) \<Rightarrow> ('a \<Rightarrow> part list) \<Rightarrow> ('a \<Rightarrow> part list) \<Rightarrow>
     'a list \<Rightarrow> int \<Rightarrow> world \<Rightarrow> int \<times> world" where
  "removeAllButBest cmp pathOf keepLine removeLine grp removed w =
     (if length grp < 2 then (removed, w)
      else removeRest (map (\<lambda>i. (pathOf i, removeLine i)) (tl (sort_by cmp grp))) removed
             (logger Debug (keepLine (hd (sort_by cmp grp))) w))"

text \<open>The comparator of lines 114 to 117 and 239 to 242: pixels descending, then size descending.\<close>

definition byQuality :: "ImageInfo \<Rightarrow> ImageInfo \<Rightarrow> int" where
  "byQuality a b = (if pixels b \<noteq> pixels a then pixels b - pixels a
                    else size_bytes b - size_bytes a)"

definition byNameLength :: "ImageInfo \<Rightarrow> ImageInfo \<Rightarrow> int" where
  "byNameLength a b = int (length (filename a)) - int (length (filename b))"

text \<open>
  The loop over the groups of \<open>removeFilenameDuplicates\<close> (lines 110 to 132) and of
  \<open>removeContentDuplicates\<close> (lines 161 to 179), which differ in the comparator and in
  the log lines only.
\<close>

fun removeGroups ::
  "(ImageInfo \<Rightarrow> ImageInfo \<Rightarrow> int) \<Rightarrow> string \<Rightarrow> string \<Rightarrow> (string \<times> ImageInfo list) list \<Rightarrow>
     int \<Rightarrow> world \<Rightarrow> int \<times> world" where
  "removeGroups cmp keeping removing [] removed w = (removed, w)"
| "removeGroups cmp keeping removing ((key, grp) # groups) removed w =
     (case removeAllButBest cmp path (\<lambda>i. [S keeping, S (filename i)])
             (\<lambda>i. [S removing, S (filename i)]) grp removed w of
        (removed', w') \<Rightarrow> removeGroups cmp keeping removing groups removed' w')"

definition filenameKey :: "ImageInfo \<Rightarrow> string option" where
  "filenameKey info = Some (dirname (path info) @ ''/'' @ baseName info @ ext info)"

definition removeFilenameDuplicates :: "ImageInfo list \<Rightarrow> world \<Rightarrow> int \<times> world" where
  "removeFilenameDuplicates imageInfos w =
     (case removeGroups byQuality ''Keeping (filename group): '' ''Removed (filename duplicate): ''
             (groupBy filenameKey imageInfos) 0 w of
        (removed, w') \<Rightarrow>
          (removed, if removed > 0
                    then logger Info [S ''Removed '', N removed, S '' filename-based duplicates''] w'
                    else w'))"

definition withContentHash :: "env \<Rightarrow> filesystem \<Rightarrow> ImageInfo \<Rightarrow> ImageInfo" where
  "withContentHash e fs info =
     info\<lparr>contentHash := map_option (getFileHash e) (fs_lookup fs (path info))\<rparr>"

definition removeContentDuplicates :: "env \<Rightarrow> ImageInfo list \<Rightarrow> world \<Rightarrow> int \<times> world" where
  "removeContentDuplicates e imageInfos w =
     (case removeGroups byNameLength ''Keeping (identical): '' ''Removed (identical): ''
             (groupBy contentHash (map (withContentHash e (files w)) imageInfos)) 0 w of
        (removed, w') \<Rightarrow>
          (removed, if removed > 0
                    then logger Info [S ''Removed '', N removed, S '' identical duplicates''] w'
                    else w'))"

text \<open>Lines 196 to 214: hash, pixel count and size of every file that has a visual hash.\<close>

definition hashedImage :: "env \<Rightarrow> filesystem \<Rightarrow> string \<Rightarrow> HashedImage option" where
  "hashedImage e fs filepath =
     (case fs_lookup fs filepath of
        None \<Rightarrow> None
      | Some content \<Rightarrow>
          if truthy (getVisualHash e content)
          then Some \<lparr>h_path = filepath, h_hash = the (getVisualHash e content),
                     h_pixels = pixelsOf e content, h_size = int (length content)\<rparr>
          else None)"

definition byQualityH :: "HashedImage \<Rightarrow> HashedImage \<Rightarrow> int" where
  "byQualityH a b = (if h_pixels b \<noteq> h_pixels a then h_pixels b - h_pixels a
                     else h_size b - h_size a)"

text \<open>The inner loop of lines 227 to 234, from \<open>j\<close> on.\<close>

function collect ::
  "env \<Rightarrow> HashedImage list \<Rightarrow> nat \<Rightarrow> nat \<Rightarrow> HashedImage list \<Rightarrow> nat set \<Rightarrow>
     HashedImage list \<times> nat set" where
  "collect e imageInfos i j grp used =
     (if j < length imageInfos then
        (if j \<in> used then collect e imageInfos i (Suc j) grp used
         else if areVisuallySimular e (h_hash (imageInfos ! i)) (h_hash (imageInfos ! j))
         then collect e imageInfos i (Suc j) (grp @ [imageInfos ! j]) (insert j used)
         else collect e imageInfos i (Suc j) grp used)
      else (grp, used))"
  by pat_completeness auto
termination
  by (relation "measure (\<lambda>(e, imageInfos, i, j, grp, used). length imageInfos - j)") auto

declare collect.simps [simp del]

text \<open>What lines 236 to 255 do with one cluster.\<close>

definition removeCluster :: "HashedImage list \<Rightarrow> int \<Rightarrow> world \<Rightarrow> int \<times> world" where
  "removeCluster grp removed w =
     removeAllButBest byQualityH h_path (\<lambda>i. [S ''Keeping (visual): '', S (basename (h_path i))])
       (\<lambda>i. [S ''Removed (visual duplicate): '', S (basename (h_path i))]) grp removed w"

text \<open>The outer loop of lines 220 to 256, from \<open>i\<close> on.\<close>

function visualLoop ::
  "env \<Rightarrow> HashedImage list \<Rightarrow> nat \<Rightarrow> nat set \<Rightarrow> int \<Rightarrow> world \<Rightarrow> int \<times> world" where
  "visualLoop e imageInfos i used removed w =
     (if i < length imageInfos then
        (if i \<in> used then visualLoop e imageInfos (Suc i) used removed w
         else
           (case collect e imageInfos i (Suc i) [imageInfos ! i] (insert i used) of
              (grp, used') \<Rightarrow>
                (case removeCluster grp removed w of
                   (removed', w') \<Rightarrow> visualLoop e imageInfos (Suc i) used' removed' w')))
      else (removed, w))"
  by pat_completeness auto
termination
  by (relation "measure (\<lambda>(e, imageInfos, i, used, removed, w). length imageInfos - i)") auto

declare visualLoop.simps [simp del]

definition removeVisualDuplicates :: "env \<Rightarrow> string list \<Rightarrow> world \<Rightarrow> int \<times> world" where
  "removeVisualDuplicates e imageFiles w =
     (case visualLoop e (List.map_filter (hashedImage e (files w)) imageFiles) 0 {} 0 w of
        (removed, w') \<Rightarrow>
          (removed, if removed > 0
                    then logger Info [S ''Removed '', N removed, S '' visual duplicates''] w'
                    else w'))"

definition deduplicate :: "env \<Rightarrow> string \<Rightarrow> bool \<Rightarrow> world \<Rightarrow> int \<times> world" where
  "deduplicate e outDir dry w =
     (if dry then (0, w)
      else
        (let w0 = logger Info [S ''Scanning for duplicate images...''] w;
             imageFiles = findImageFiles (files w0) outDir
         in if length imageFiles < 2
            then (0, logger Debug [S ''Not enough images for deduplication''] w0)
            else
              (let w1 = logger Debug [S ''Analyzing '', N (int (length imageFiles)), S '' images...''] w0;
                   imageInfos = List.map_filter (imageInfo e (files w1)) imageFiles
               in case removeFilenameDuplicates imageInfos w1 of
                    (r1, w2) \<Rightarrow>
                      (let remainingInfos =
                             List.map_filter (\<lambda>filepath. find (\<lambda>i. path i = filepath) imageInfos)
                               (findImageFiles (files w2) outDir)
                       in case removeContentDuplicates e remainingInfos w2 of
                            (r2, w3) \<Rightarrow>
                              (case removeVisualDuplicates e (findImageFiles (files w3) outDir) w3 of
                                 (r3, w4) \<Rightarrow>
                                   (r1 + r2 + r3,
                                    if r1 + r2 + r3 > 0
                                    then logger Info [S ''Removed '', N (r1 + r2 + r3),
                                                      S '' duplicate images''] w4
                                    else w4))))))"

section \<open>DuplicateScanner (duplicate-scanner.ts)\<close>

text \<open>
  \<open>FileInfo\<close> without its \<open>baseName\<close>, which \<open>findMediaFiles\<close> computes and nothing
  reads. Optional fields are options.
\<close>

record FileInfo =
  filepath :: string
  fi_filename :: string
  fi_ext :: string
  fi_size :: int
  fi_contentHash :: "string option"
  fi_visualHash :: "string option"
  fi_width :: "int option"
  fi_height :: "int option"
  fi_pixels :: "int option"

datatype reason = Identical | Visual | Filename

record DuplicateGroup =
  original :: FileInfo
  duplicates :: "FileInfo list"
  reason :: reason

definition mediaExtensions :: "string list" where
  "mediaExtensions = MEDIA_EXTENSIONS_images @ MEDIA_EXTENSIONS_videos"

definition findMediaFiles :: "filesystem \<Rightarrow> string \<Rightarrow> FileInfo list" where
  "findMediaFiles fs directory =
     map (\<lambda>(p, content).
            \<lparr>filepath = p, fi_filename = basename p,
             fi_ext = drop 1 (toLowerCase (extname p)), fi_size = int (length content),
             fi_contentHash = None, fi_visualHash = None, fi_width = None, fi_height = None,
             fi_pixels = None\<rparr>)
       (filter (\<lambda>(p, content). under directory p \<and>
                  drop 1 (toLowerCase (extname p)) \<in> set mediaExtensions) fs)"

text \<open>\<open>sortByQuality\<close>: pixels descending (a missing count is 0), then size descending.\<close>

definition pixelsOr0 :: "FileInfo \<Rightarrow> int" where
  "pixelsOr0 f = (case fi_pixels f of Some n \<Rightarrow> n | None \<Rightarrow> 0)"

definition qualityOrder :: "FileInfo \<Rightarrow> FileInfo \<Rightarrow> int" where
  "qualityOrder a b = (if pixelsOr0 b - pixelsOr0 a \<noteq> 0 then pixelsOr0 b - pixelsOr0 a
                       else fi_size b - fi_size a)"

definition sortByQuality :: "FileInfo list \<Rightarrow> FileInfo list" where
  "sortByQuality fs = sort_by qualityOrder fs"

definition nameLengthOrder :: "FileInfo \<Rightarrow> FileInfo \<Rightarrow> int" where
  "nameLengthOrder a b = int (length (fi_filename a)) - int (length (fi_filename b))"

text \<open>Lines 132 to 146 and 187 to 199: a group of two or more gives a duplicate group.\<close>

definition duplicateGroups ::
  "(FileInfo list \<Rightarrow> FileInfo list) \<Rightarrow> reason \<Rightarrow> (string \<times> FileInfo list) list \<Rightarrow>
     DuplicateGroup list" where
  "duplicateGroups srt why groups =
     map (\<lambda>(hash, groupFiles).
            \<lparr>original = hd (srt groupFiles), duplicates = tl (srt groupFiles),
             reason = why\<rparr>)
       (filter (\<lambda>(hash, groupFiles). \<not> length groupFiles < 2) groups)"

definition hashContent :: "env \<Rightarrow> filesystem \<Rightarrow> FileInfo \<Rightarrow> FileInfo" where
  "hashContent e fs f =
     f\<lparr>fi_contentHash := map_option (getFileHash e) (fs_lookup fs (filepath f))\<rparr>"

text \<open>
  \<open>findIdenticalFiles\<close>. The function writes the content hash into the \<open>FileInfo\<close>
  objects it was given; the model returns the updated list along with the groups.
\<close>

definition identicalGroupsOf :: "env \<Rightarrow> filesystem \<Rightarrow> FileInfo list \<Rightarrow> DuplicateGroup list" where
  "identicalGroupsOf e fs fileInfos =
     duplicateGroups (sort_by nameLengthOrder) Identical
       (groupBy fi_contentHash (map (hashContent e fs) fileInfos))"

definition findIdenticalFiles ::
  "env \<Rightarrow> FileInfo list \<Rightarrow> world \<Rightarrow> (DuplicateGroup list \<times> FileInfo list) \<times> world" where
  "findIdenticalFiles e fileInfos w =
     ((identicalGroupsOf e (files w) fileInfos, map (hashContent e (files w)) fileInfos),
      logger Info [S ''Checking for identical files (content hash)...''] w)"

definition analyse :: "env \<Rightarrow> filesystem \<Rightarrow> FileInfo \<Rightarrow> FileInfo" where
  "analyse e fs f =
     (case fs_lookup fs (filepath f) of
        None \<Rightarrow> f
      | Some content \<Rightarrow>
          (case getImageDimensions e content of
             Some (width, height) \<Rightarrow>
               f\<lparr>fi_width := Some width, fi_height := Some height,
                 fi_pixels := Some (width * height),
                 fi_visualHash := getVisualHash e content\<rparr>
           | None \<Rightarrow> f\<lparr>fi_visualHash := getVisualHash e content\<rparr>))"

definition notExcluded :: "string set \<Rightarrow> FileInfo \<Rightarrow> bool" where
  "notExcluded excludeHashes f =
     (fi_ext f \<in> set imageExtensions \<and>
      \<not> (truthy (fi_contentHash f) \<and> the (fi_contentHash f) \<in> excludeHashes))"

definition visualGroupsOf ::
  "env \<Rightarrow> filesystem \<Rightarrow> FileInfo list \<Rightarrow> string set \<Rightarrow> DuplicateGroup list" where
  "visualGroupsOf e fs fileInfos excludeHashes =
     duplicateGroups sortByQuality Visual
       (groupBy fi_visualHash
          (map (analyse e fs) (filter (notExcluded excludeHashes) fileInfos)))"

definition findVisuallySimilar ::
  "env \<Rightarrow> FileInfo list \<Rightarrow> string set \<Rightarrow> world \<Rightarrow> DuplicateGroup list \<times> world" where
  "findVisuallySimilar e fileInfos excludeHashes w =
     (visualGroupsOf e (files w) fileInfos excludeHashes,
      logger Info [S ''Checking for visually similar images (different resolutions)...''] w)"

record ScanResult =
  found :: int
  deleted :: int
  freedBytes :: int

datatype scanError = CannotAccess

definition dimsParts :: "FileInfo \<Rightarrow> string \<Rightarrow> string \<Rightarrow> part list" where
  "dimsParts f before after =
     (if pixelsOr0 f \<noteq> 0
      then [S before, N (the (fi_width f)), S ''x'', N (the (fi_height f)), S after] else [])"

text \<open>Lines 268 to 284: one duplicate of a group.\<close>

definition handleDuplicate ::
  "string \<Rightarrow> bool \<Rightarrow> FileInfo \<Rightarrow> ScanResult \<times> world \<Rightarrow> ScanResult \<times> world" where
  "handleDuplicate directory dry dup rw =
     (case rw of
        (r, w) \<Rightarrow>
          (let relPath = drop (length directory + 1) (filepath dup);
               line = [S relPath, S '' ('', Bytes (nat (fi_size dup))] @ dimsParts dup '' '' []
                        @ [S '')''];
               r1 = r\<lparr>freedBytes := freedBytes r + fi_size dup\<rparr>
           in if dry then (r1, logger Warn (S ''  Would delete: '' # line) w)
              else
                (case fs_lookup (files w) (filepath dup) of
                   Some content \<Rightarrow>
                     (r1\<lparr>deleted := deleted r1 + 1\<rparr>,
                      logger Success (S ''  Deleted: '' # line)
                        (emit (Unlink (filepath dup))
                           (w\<lparr>files := fs_unlink (filepath dup) (files w)\<rparr>)))
                 | None \<Rightarrow>
                     (r1, logger Error [S ''  Failed to delete: '', S relPath]
                            (emit (Unlink (filepath dup)) w)))))"

text \<open>Lines 258 to 285: one group.\<close>

definition handleGroup ::
  "string \<Rightarrow> bool \<Rightarrow> DuplicateGroup \<Rightarrow> ScanResult \<times> world \<Rightarrow> ScanResult \<times> world" where
  "handleGroup directory dry g rw =
     (case rw of
        (r, w) \<Rightarrow>
          foldl (\<lambda>rw dup. handleDuplicate directory dry dup rw)
            (r\<lparr>found := found r + int (length (duplicates g))\<rparr>,
             logger Info
               ([S ''['', S (if reason g = Identical then ''IDENTICAL'' else ''VISUAL MATCH''),
                 S ''] Keeping: '', S (basename (filepath (original g)))]
                @ dimsParts (original g) '' ('' '')'') w)
            (duplicates g))"

definition excludedHashes :: "DuplicateGroup list \<Rightarrow> string set" where
  "excludedHashes groups =
     set (concat (map (\<lambda>g. List.map_filter
                              (\<lambda>dup. if truthy (fi_contentHash dup) then fi_contentHash dup
                                     else None)
                              (duplicates g)) groups))"

text \<open>The two phases of \<open>scan\<close> (lines 231 to 250): all duplicate groups of a directory.\<close>

definition allGroups :: "env \<Rightarrow> string \<Rightarrow> filesystem \<Rightarrow> DuplicateGroup list" where
  "allGroups e directory fs =
     identicalGroupsOf e fs (findMediaFiles fs directory) @
     visualGroupsOf e fs (map (hashContent e fs) (findMediaFiles fs directory))
       (excludedHashes (identicalGroupsOf e fs (findMediaFiles fs directory)))"

definition summary :: "bool \<Rightarrow> nat \<Rightarrow> nat \<Rightarrow> ScanResult \<Rightarrow> world \<Rightarrow> world" where
  "summary dry identicalCount visualCount r w =
     (let w1 = logger Info [S ''Total duplicates: '', N (found r)]
                 (logger Info [S ''Visually similar groups: '', N (int visualCount)]
                    (logger Info [S ''Identical file groups: '', N (int identicalCount)]
                       (logger Info [S ''=== Summary ===''] (logger Console [] w))))
      in if dry
         then logger Warn [S ''Run without --dry-run to delete files'']
                (logger Info [S ''Would free: '', Bytes (nat (freedBytes r))] w1)
         else logger Success [S ''Freed: '', Bytes (nat (freedBytes r))]
                (logger Success [S ''Deleted: '', N (deleted r), S '' files''] w1))"

definition scan :: "env \<Rightarrow> string \<Rightarrow> bool \<Rightarrow> world \<Rightarrow> (scanError + ScanResult) \<times> world" where
  "scan e directory dry w =
     (if directory \<notin> dirs w
      then (Inl CannotAccess, logger Error [S ''Cannot access directory: '', S directory] w)
      else
        (let w0 = logger Info [S ''Scanning directory: '', S directory] w;
             fileInfos0 = findMediaFiles (files w0) directory;
             w1 = logger Console []
                    (logger Info [S ''Found '', N (int (length fileInfos0)), S '' media files''] w0)
         in case findIdenticalFiles e fileInfos0 w1 of
              ((identicalGroups, fileInfos), w2) \<Rightarrow>
                (case findVisuallySimilar e fileInfos (excludedHashes identicalGroups) w2 of
                   (visualGroups, w3) \<Rightarrow>
                     (case foldl (\<lambda>rw g. handleGroup directory dry g rw)
                             (\<lparr>found = 0, deleted = 0, freedBytes = 0\<rparr>, logger Console [] w3)
                             (identicalGroups @ visualGroups) of
                        (r, w4) \<Rightarrow>
                          (Inr r, summary dry (length identicalGroups) (length visualGroups)
                                    r w4)))))"

section \<open>Vocabulary of the statements\<close>

text \<open>The events a call appended to the trace.\<close>

definition news :: "world \<Rightarrow> world \<Rightarrow> event list" where
  "news w w' = drop (length (trace w)) (trace w')"

text \<open>The path a download of \<open>url\<close> started in world \<open>w\<close> writes to (lines 81 to 100).\<close>

definition destination :: "env \<Rightarrow> Config \<Rightarrow> string \<Rightarrow> string" where
  "destination e c url =
     path_join (path_join (outputDir c) (getDomain e url)) (getFilenameFromUrl e url)"

definition target :: "env \<Rightarrow> Config \<Rightarrow> string \<Rightarrow> world \<Rightarrow> string" where
  "target e c url w = ensureUniqueFilepath e (files w) (destination e c url)"

text \<open>The URL passes the two guards of lines 69 to 77.\<close>

definition admitted :: "env \<Rightarrow> string \<Rightarrow> world \<Rightarrow> bool" where
  "admitted e url w =
     (url \<notin> downloadedUrls (state w) \<and> getDomain e url \<in> allowedDomains (state w))"

text \<open>The resume check of lines 88 to 98 ends the call.\<close>

definition resumeSkips :: "env \<Rightarrow> Config \<Rightarrow> string \<Rightarrow> world \<Rightarrow> bool" where
  "resumeSkips e c url w =
     (resume c \<and> (case fs_lookup (files w) (destination e c url) of
                     Some content \<Rightarrow> length content > 0 | None \<Rightarrow> False))"

text \<open>The call reaches the retry loop: a fetch is attempted.\<close>

definition attempted :: "env \<Rightarrow> Config \<Rightarrow> string \<Rightarrow> world \<Rightarrow> bool" where
  "attempted e c url w = (admitted e url w \<and> \<not> resumeSkips e c url w \<and> \<not> dryRun c)"

definition downloadedLine :: "env \<Rightarrow> string \<Rightarrow> event" where
  "downloadedLine e url = Log Success [S ''Downloaded: '', S (getFilenameFromUrl e url)]"

definition tooSmallLine :: "env \<Rightarrow> string \<Rightarrow> int \<times> int \<Rightarrow> event" where
  "tooSmallLine e url d =
     Log Debug [S ''Skipping (too small): '', S (getFilenameFromUrl e url), S '' ('',
                N (fst d), S ''x'', N (snd d), S '')'']"

text \<open>
  Of a sorted group, the file of the first member is as it was and the files of all
  other members are gone.
\<close>

definition onlyFirstRemains :: "('a \<Rightarrow> string) \<Rightarrow> 'a list \<Rightarrow> world \<Rightarrow> world \<Rightarrow> bool" where
  "onlyFirstRemains pathOf sorted_grp w w' =
     (fs_lookup (files w') (pathOf (hd sorted_grp)) = fs_lookup (files w) (pathOf (hd sorted_grp)) \<and>
      list_all (\<lambda>i. fs_lookup (files w') (pathOf i) = None) (tl sorted_grp))"

text \<open>
  What a log tells about the duplicates: which file of a group is kept and which files are
  deleted, or would be. The three lines about a duplicate name it by its relative path.
\<close>

datatype decision = Keeping string string | Deleting string

definition textOf :: "part \<Rightarrow> string" where
  "textOf p = (case p of S s \<Rightarrow> s | N n \<Rightarrow> [] | Bytes b \<Rightarrow> [])"

definition decisionOf :: "event \<Rightarrow> decision list" where
  "decisionOf ev =
     (case ev of
        Log l ps \<Rightarrow>
          (if 4 \<le> length ps \<and> hd ps = S ''[''
           then [Keeping (textOf (ps ! 1)) (textOf (ps ! 3))]
           else if 2 \<le> length ps \<and>
                   hd ps \<in> {S ''  Would delete: '', S ''  Deleted: '', S ''  Failed to delete: ''}
           then [Deleting (textOf (ps ! 1))]
           else [])
      | _ \<Rightarrow> [])"

definition decisions :: "event list \<Rightarrow> decision list" where
  "decisions evs = concat (map decisionOf evs)"

text \<open>The decisions a scan takes for a list of groups.\<close>

definition groupDecisions :: "string \<Rightarrow> DuplicateGroup list \<Rightarrow> decision list" where
  "groupDecisions directory gs =
     concat (map (\<lambda>g. Keeping (if reason g = Identical then ''IDENTICAL'' else ''VISUAL MATCH'')
                          (basename (filepath (original g)))
                       # map (\<lambda>d. Deleting (drop (length directory + 1) (filepath d)))
                           (duplicates g)) gs)"

text \<open>The line a dry run prints for a download it would start.\<close>

definition wouldDownloadLine :: "env \<Rightarrow> Config \<Rightarrow> string \<Rightarrow> world \<Rightarrow> event" where
  "wouldDownloadLine e c url w =
     Log Console [S ''[DRY-RUN] Would download: '', S url, S '' -> '', S (target e c url w)]"

section \<open>Vocabulary of the proofs\<close>

text \<open>Events of the fetch phase: requests, failure lines, writes to the target, back-off.\<close>

definition fetchEvent :: "string \<Rightarrow> event \<Rightarrow> bool" where
  "fetchEvent fp ev =
     (case ev of HttpGet u \<Rightarrow> True | Log l m \<Rightarrow> l = Debug \<and> take 1 m = [S ''Failed to download ('']
      | Write p \<Rightarrow> p = fp | Sleep n \<Rightarrow> n = 1000 | _ \<Rightarrow> False)"

definition dl_post :: "string \<Rightarrow> world \<Rightarrow> bool \<times> world \<Rightarrow> bool" where
  "dl_post fp w y =
     (state (snd y) = state w \<and> dirs (snd y) = dirs w \<and> browser (snd y) = browser w \<and>
      shuttingDown (snd y) = shuttingDown w \<and> reqs w < reqs (snd y) \<and>
      (\<forall>q. q \<noteq> fp \<longrightarrow> fs_lookup (files (snd y)) q = fs_lookup (files w) q) \<and>
      (fst y \<longrightarrow> (\<exists>content. fs_lookup (files (snd y)) fp = Some content)) \<and>
      (\<exists>evs. trace (snd y) = trace w @ evs \<and> list_all (fetchEvent fp) evs))"

definition rl_post :: "string \<Rightarrow> world \<Rightarrow> bool \<times> int \<times> world \<Rightarrow> bool" where
  "rl_post fp w y =
     (case y of (ok, retry', w') \<Rightarrow>
      state w' = state w \<and> dirs w' = dirs w \<and> browser w' = browser w \<and>
      shuttingDown w' = shuttingDown w \<and>
      (\<forall>q. q \<noteq> fp \<longrightarrow> fs_lookup (files w') q = fs_lookup (files w) q) \<and>
      (ok \<longrightarrow> (\<exists>content. fs_lookup (files w') fp = Some content)) \<and>
      (\<exists>evs. trace w' = trace w @ evs \<and> list_all (fetchEvent fp) evs))"

datatype verdict = Failed | EmptyFile | DuplicateContent string | TooSmall string "int \<times> int"
  | Kept string

definition registered :: "env \<Rightarrow> Config \<Rightarrow> string \<Rightarrow> event list" where
  "registered e c content = (if skipDuplicates c then [AddHash (getFileHash e content)] else [])"

fun finalEvents :: "env \<Rightarrow> Config \<Rightarrow> string \<Rightarrow> string \<Rightarrow> verdict \<Rightarrow> event list" where
  "finalEvents e c url fp Failed = [Log Error [S ''Failed: '', S url], Unlink fp]"
| "finalEvents e c url fp EmptyFile =
     [Log Debug [S ''Skipping (empty file): '', S (getFilenameFromUrl e url)], Unlink fp]"
| "finalEvents e c url fp (DuplicateContent content) =
     [Log Debug [S ''Skipping duplicate: '', S (getFilenameFromUrl e url)], Unlink fp]"
| "finalEvents e c url fp (TooSmall content d) =
     registered e c content @ [tooSmallLine e url d, Unlink fp]"
| "finalEvents e c url fp (Kept content) =
     registered e c content @ downloadedLine e url #
       (if delayMs c > 0 then [Sleep (delayMs c)] else [])"

fun finalFile :: "verdict \<Rightarrow> string option" where
  "finalFile (Kept content) = Some content"
| "finalFile _ = None"

fun finalHashes :: "env \<Rightarrow> Config \<Rightarrow> verdict \<Rightarrow> string set" where
  "finalHashes e c (Kept content) = (if skipDuplicates c then {getFileHash e content} else {})"
| "finalHashes e c (TooSmall content d) =
     (if skipDuplicates c then {getFileHash e content} else {})"
| "finalHashes e c _ = {}"

fun verdictFor :: "env \<Rightarrow> Config \<Rightarrow> string \<Rightarrow> string set \<Rightarrow> verdict \<Rightarrow> bool" where
  "verdictFor e c fp known Failed = True"
| "verdictFor e c fp known EmptyFile = True"
| "verdictFor e c fp known (DuplicateContent content) =
     (content \<noteq> [] \<and> skipDuplicates c \<and> getFileHash e content \<in> known)"
| "verdictFor e c fp known (TooSmall content d) =
     (content \<noteq> [] \<and> (skipDuplicates c \<longrightarrow> getFileHash e content \<notin> known) \<and>
      tooSmall e c fp content = Some d)"
| "verdictFor e c fp known (Kept content) =
     (content \<noteq> [] \<and> (skipDuplicates c \<longrightarrow> getFileHash e content \<notin> known) \<and>
      tooSmall e c fp content = None)"

definition saved_post :: "env \<Rightarrow> Config \<Rightarrow> string \<Rightarrow> string \<Rightarrow> world \<Rightarrow> world \<Rightarrow> verdict \<Rightarrow> bool" where
  "saved_post e c url fp w w' v =
     (trace w' = trace w @ finalEvents e c url fp v \<and>
      fs_lookup (files w') fp = finalFile v \<and>
      (\<forall>q. q \<noteq> fp \<longrightarrow> fs_lookup (files w') q = fs_lookup (files w) q) \<and>
      contentHashes (state w') = contentHashes (state w) \<union> finalHashes e c v \<and>
      visitedUrls (state w') = visitedUrls (state w) \<and>
      allowedDomains (state w') = allowedDomains (state w) \<and>
      downloadedUrls (state w') = downloadedUrls (state w) \<and>
      dirs w' = dirs w \<and> reqs w' = reqs w \<and>
      verdictFor e c fp (contentHashes (state w)) v)"

definition outcome :: "env \<Rightarrow> Config \<Rightarrow> string \<Rightarrow> world \<Rightarrow> world \<Rightarrow> event list \<Rightarrow> verdict \<Rightarrow> bool" where
  "outcome e c url w w' evs v =
     (list_all (fetchEvent (target e c url w)) evs \<and>
      trace w' = trace w @ [AddDownloaded url, Mkdir (path_join (outputDir c) (getDomain e url))]
                   @ evs @ finalEvents e c url (target e c url w) v \<and>
      fs_lookup (files w') (target e c url w) = finalFile v \<and>
      (\<forall>q. q \<noteq> target e c url w \<longrightarrow> fs_lookup (files w') q = fs_lookup (files w) q) \<and>
      contentHashes (state w') = contentHashes (state w) \<union> finalHashes e c v \<and>
      visitedUrls (state w') = visitedUrls (state w) \<and>
      allowedDomains (state w') = allowedDomains (state w) \<and>
      downloadedUrls (state w') = insert url (downloadedUrls (state w)) \<and>
      dirs w' = dirs w \<union> set (ancestors (path_join (outputDir c) (getDomain e url))) \<and>
      verdictFor e c (target e c url w) (contentHashes (state w)) v)"

fun httpGets :: "event list \<Rightarrow> string list" where
  "httpGets [] = []"
| "httpGets (HttpGet u # evs) = u # httpGets evs"
| "httpGets (ev # evs) = httpGets evs"

text \<open>
  Among the requests for the URLs \<open>us\<close>, numbered from \<open>n\<close> on, the number of those
  whose response satisfies \<open>P\<close>.
\<close>

fun countResponses :: "(response \<Rightarrow> bool) \<Rightarrow> env \<Rightarrow> nat \<Rightarrow> string list \<Rightarrow> nat" where
  "countResponses P e n [] = 0"
| "countResponses P e n (u # us) =
     (if P (httpGet e n u) then 1 else 0) + countResponses P e (Suc n) us"

definition isFinal :: "response \<Rightarrow> bool" where
  "isFinal r = (\<not> isRedirect r)"

definition isSuccess :: "response \<Rightarrow> bool" where
  "isSuccess r = (case r of Response code location (Finish content) \<Rightarrow> code = 200 | _ \<Rightarrow> False)"

text \<open>A 200 response whose body breaks off: \<open>downloadFile\<close> never answers.\<close>

definition stalls :: "response \<Rightarrow> bool" where
  "stalls r = (case r of Response code location (Truncated content) \<Rightarrow> code = 200 | _ \<Rightarrow> False)"

definition backoffs :: "event list \<Rightarrow> nat" where
  "backoffs evs = length (filter (\<lambda>ev. ev = Sleep 1000) evs)"

definition redirectTarget :: "response \<Rightarrow> string" where
  "redirectTarget r = (case r of Response code (Some loc) b \<Rightarrow> loc | _ \<Rightarrow> [])"

text \<open>
  The requests for \<open>us\<close>, numbered from \<open>n\<close> on, follow one another as the downloader
  issues them: after a redirect the next request goes to the redirect target, after any
  other response it goes to \<open>url\<close> again.
\<close>

fun chain :: "env \<Rightarrow> string \<Rightarrow> nat \<Rightarrow> string list \<Rightarrow> bool" where
  "chain e url n (u # v # us) =
     (v = (if isRedirect (httpGet e n u) then redirectTarget (httpGet e n u) else url) \<and>
      chain e url (Suc n) (v # us))"
| "chain e url n us = True"

definition dl_count :: "env \<Rightarrow> string \<Rightarrow> world \<Rightarrow> bool \<times> world \<Rightarrow> bool" where
  "dl_count e url w y =
     (\<exists>evs. trace (snd y) = trace w @ evs \<and>
        reqs (snd y) = reqs w + length (httpGets evs) \<and>
        countResponses isFinal e (reqs w) (httpGets evs) = 1 \<and>
        countResponses isSuccess e (reqs w) (httpGets evs) = (if fst y then 1 else 0) \<and>
        httpGets evs \<noteq> [] \<and> hd evs = HttpGet url \<and>
        (fst y \<longrightarrow> isSuccess (httpGet e (reqs (snd y) - 1) (last (httpGets evs)))) \<and>
        isFinal (httpGet e (reqs (snd y) - 1) (last (httpGets evs))) \<and>
        (\<forall>u0. chain e u0 (reqs w) (httpGets evs)) \<and>
        backoffs evs = 0)"

definition attemptsMade :: "int \<Rightarrow> bool \<Rightarrow> int \<Rightarrow> nat" where
  "attemptsMade retry ok k = nat (k - retry) + (if ok then 1 else 0)"

definition rl_evs ::
  "env \<Rightarrow> string \<Rightarrow> int \<Rightarrow> bool \<Rightarrow> int \<Rightarrow> world \<Rightarrow> world \<Rightarrow> event list \<Rightarrow> bool" where
  "rl_evs e url retry ok k w w' evs =
     (trace w' = trace w @ evs \<and>
      reqs w' = reqs w + length (httpGets evs) \<and>
      countResponses isFinal e (reqs w) (httpGets evs) = attemptsMade retry ok k \<and>
      countResponses isSuccess e (reqs w) (httpGets evs) = (if ok then 1 else 0) \<and>
      (ok \<longrightarrow> isSuccess (httpGet e (reqs w' - 1) (last (httpGets evs)))) \<and>
      (retry = 0 \<and> evs \<noteq> [] \<longrightarrow> hd evs = HttpGet url) \<and>
      chain e url (reqs w) (httpGets evs) \<and>
      (httpGets evs \<noteq> [] \<longrightarrow>
         hd (httpGets evs) = url \<and>
         isFinal (httpGet e (reqs w' - 1) (last (httpGets evs)))) \<and>
      backoffs evs = attemptsMade retry ok k -
                       (if retry = 0 \<and> attemptsMade retry ok k > 0 then 1 else 0))"

definition rl_count :: "env \<Rightarrow> Config \<Rightarrow> string \<Rightarrow> int \<Rightarrow> world \<Rightarrow> bool \<times> int \<times> world \<Rightarrow> bool" where
  "rl_count e c url retry w y =
     (case y of (ok, k, w') \<Rightarrow>
        retry \<le> k \<and> (ok \<longrightarrow> k < maxRetries c) \<and> (\<not> ok \<longrightarrow> k = max retry (maxRetries c)) \<and>
        (\<exists>evs. rl_evs e url retry ok k w w' evs))"

section \<open>Vocabulary of the crawler proofs\<close>

definition quiet :: "event \<Rightarrow> bool" where
  "quiet ev = (case ev of Log l m \<Rightarrow> True | _ \<Rightarrow> False)"

definition crawl_post :: "string set \<Rightarrow> world \<Rightarrow> world \<Rightarrow> bool" where
  "crawl_post R w w' =
     (\<exists>evs. trace w' = trace w @ evs \<and>
        visitedUrls (state w') = visitedUrls (state w) \<union> set (adds evs) \<and>
        set (adds evs) \<inter> visitedUrls (state w) = {} \<and>
        distinct (gotos evs) \<and> markedFirst {} evs \<and> set (gotos evs) \<subseteq> R)"

text \<open>The hosts of the media URLs among the attribute values of the seed page.\<close>

definition observedHosts :: "env \<Rightarrow> string \<Rightarrow> string set" where
  "observedHosts e url =
     (case render e url of
        Loaded allUrls media links \<Rightarrow>
          getDomain e ` set (filter (isMediaUrl e)
                               (List.map_filter (\<lambda>rawUrl. normalized e rawUrl url) allUrls))
      | _ \<Rightarrow> {})"

section \<open>Vocabulary of the dedup proofs\<close>

definition preorder :: "('a \<Rightarrow> 'a \<Rightarrow> int) \<Rightarrow> bool" where
  "preorder cmp =
     ((\<forall>a b. cmp a b \<le> 0 \<or> cmp b a \<le> 0) \<and>
      (\<forall>a b c. cmp a b \<le> 0 \<longrightarrow> cmp b c \<le> 0 \<longrightarrow> cmp a c \<le> 0))"

fun members :: "(string \<times> 'a list) list \<Rightarrow> 'a list" where
  "members [] = []"
| "members ((k, g) # gs) = g @ members gs"

definition keyed :: "('a \<Rightarrow> string option) \<Rightarrow> (string \<times> 'a list) list \<Rightarrow> bool" where
  "keyed key gs = (\<forall>k g. (k, g) \<in> set gs \<longrightarrow> g \<noteq> [] \<and> (\<forall>y \<in> set g. key y = Some k))"

definition fs_remove :: "string set \<Rightarrow> filesystem \<Rightarrow> filesystem" where
  "fs_remove D fs = filter (\<lambda>(q, content). q \<notin> D) fs"

text \<open>The members of a group that are unlinked: all but the first of the sorted group.\<close>

definition victims :: "('a \<Rightarrow> 'a \<Rightarrow> int) \<Rightarrow> 'a list \<Rightarrow> 'a list" where
  "victims cmp grp = (if length grp < 2 then [] else tl (sort_by cmp grp))"

text \<open>A step that removes the files \<open>D\<close> and changes nothing else but the trace.\<close>

definition removal :: "string set \<Rightarrow> world \<Rightarrow> world \<Rightarrow> bool" where
  "removal D w w' =
     (files w' = fs_remove D (files w) \<and> dirs w' = dirs w \<and> state w' = state w \<and>
      reqs w' = reqs w)"

text \<open>
  The indices that join the cluster seeded at \<open>i\<close> when the inner loop runs from \<open>j\<close>
  with the set \<open>used\<close>.
\<close>

definition joiners :: "env \<Rightarrow> HashedImage list \<Rightarrow> nat \<Rightarrow> nat \<Rightarrow> nat set \<Rightarrow> nat list" where
  "joiners e imageInfos i j used =
     filter (\<lambda>k. k \<notin> used \<and>
                 areVisuallySimular e (h_hash (imageInfos ! i)) (h_hash (imageInfos ! k)))
       [j ..< length imageInfos]"

text \<open>The clusters the outer loop forms from \<open>i\<close> on, in order.\<close>

function clustersFrom :: "env \<Rightarrow> HashedImage list \<Rightarrow> nat \<Rightarrow> nat set \<Rightarrow> HashedImage list list" where
  "clustersFrom e imageInfos i used =
     (if i < length imageInfos then
        (if i \<in> used then clustersFrom e imageInfos (Suc i) used
         else
           (case collect e imageInfos i (Suc i) [imageInfos ! i] (insert i used) of
              (grp, used') \<Rightarrow> grp # clustersFrom e imageInfos (Suc i) used'))
      else [])"
  by pat_completeness auto
termination
  by (relation "measure (\<lambda>(e, imageInfos, i, used). length imageInfos - i)") auto

declare clustersFrom.simps [simp del]

text \<open>The count and byte total a scan reports for a list of groups.\<close>

definition tallyGroups :: "DuplicateGroup list \<Rightarrow> int \<times> int" where
  "tallyGroups gs =
     (sum_list (map (\<lambda>g. int (length (duplicates g))) gs),
      sum_list (map (\<lambda>g. sum_list (map fi_size (duplicates g))) gs))"

text \<open>The paths a scan unlinks: those of all duplicates, unless it is a dry run.\<close>

definition scanVictims :: "bool \<Rightarrow> DuplicateGroup list \<Rightarrow> string set" where
  "scanVictims dry gs = (if dry then {} else filepath ` (\<Union>g \<in> set gs. set (duplicates g)))"

definition steady :: "ScanResult \<Rightarrow> ScanResult \<Rightarrow> int \<Rightarrow> int \<Rightarrow> bool" where
  "steady r r' n b = (found r' = found r + n \<and> freedBytes r' = freedBytes r + b)"

text \<open>The members of a duplicate group of the scanner, the original first.\<close>

definition entries :: "DuplicateGroup \<Rightarrow> FileInfo list" where
  "entries g = original g # duplicates g"

section \<open>A sample session\<close>

definition ex_getDomain :: "string \<Rightarrow> string" where
  "ex_getDomain u = takeWhile (\<lambda>c. c \<noteq> CHR ''/'') (drop 7 u)"

definition ex_httpGet :: "nat \<Rightarrow> string \<Rightarrow> response" where
  "ex_httpGet n u =
     (if u = ''http://a.com/tiny.png'' then Response 200 None (Finish ''tiny'')
      else if u = ''http://a.com/big.png'' then Response 200 None (Finish ''big'')
      else if u = ''http://a.com/moved.png''
        then (if even n then Response 301 (Some ''http://a.com/big.png'') (Finish [])
              else Response 503 None (Finish []))
      else if u = ''http://a.com/flaky.png''
        then (if n < 2 then RequestTimeout else Response 200 None (Finish ''flaky''))
      else Response 404 None (Finish []))"

definition ex_render :: "string \<Rightarrow> navigation" where
  "ex_render u =
     (if u = ''http://a.com/'' then
        Loaded [''http://a.com/logo.png'', ''http://img.cdn.net/banner.jpg'',
                ''http://ads.tracker.com/pixel.gif'', ''http://a.com/about'']
               [''http://a.com/logo.png'', ''http://img.cdn.net/banner.jpg'']
               [''http://a.com/about'', ''http://a.com/'', ''mailto:x@a.com'', ''#top'',
                ''http://other.org/page'']
      else if u = ''http://a.com/about'' then
        Loaded [] [''http://a.com/big.png''] [''http://a.com/'', ''http://a.com/deep'']
      else if u = ''http://a.com/deep'' then Loaded [] [] []
      else GotoFails)"

text \<open>
  Modelled from the spec: the helper \<open>areVisuallySimular\<close> of \<open>utils/file-utils.ts\<close>
  is not among the sources. The spec calls two perceptual hashes similar when their hamming
  distance, the count of differing positions of two codes of equal length, is at most a
  fixed threshold, and leaves the threshold open. The sample session takes threshold 1.
\<close>

definition hammingDistance :: "string \<Rightarrow> string \<Rightarrow> nat" where
  "hammingDistance a b = length (filter (\<lambda>(x, y). x \<noteq> y) (zip a b))"

definition withinThreshold :: "nat \<Rightarrow> string \<Rightarrow> string \<Rightarrow> bool" where
  "withinThreshold t a b = (length a = length b \<and> hammingDistance a b \<le> t)"

definition ex_visualHash :: "string \<Rightarrow> string option" where
  "ex_visualHash c =
     (if c = ''big'' \<or> c = ''tiny'' then Some ''1010''
      else if c = ''near'' then Some ''1011''
      else if c = ''other'' then Some ''0101'' else None)"

definition ex_env :: env where
  "ex_env = \<lparr>getDomain = ex_getDomain, getFilenameFromUrl = basename,
     normalizeUrl = (\<lambda>u b. Some u),
     isMediaUrl = (\<lambda>u. drop 1 (toLowerCase (extname u)) \<in> set (MEDIA_EXTENSIONS_images @ MEDIA_EXTENSIONS_videos)),
     ensureUniqueFilepath = (\<lambda>fs p. p), getFileHash = (\<lambda>c. c),
     getImageDimensions = (\<lambda>c. if c = ''tiny'' then Some (10, 10)
                                 else if c = ''big'' then Some (2000, 1000) else None),
     getVisualHash = ex_visualHash, areVisuallySimular = withinThreshold 1,
     validUrl = (\<lambda>u. startsWith u ''http://'' \<or> startsWith u ''https://''),
     httpGet = ex_httpGet, render = ex_render, interrupted = (\<lambda>u. False)\<rparr>"

text \<open>The same session with a server that answers \<open>temp.png\<close> by a temporary redirect.\<close>

definition ex_detour :: env where
  "ex_detour = ex_env\<lparr>httpGet :=
     (\<lambda>n u. if u = ''http://a.com/temp.png''
            then Response 307 (Some ''http://a.com/big.png'') (Finish [])
            else ex_httpGet n u)\<rparr>"

definition ex_cfg :: Config where
  "ex_cfg = \<lparr>outputDir = ''out'', dryRun = False, resume = False, minWidth = 100,
     minHeight = 100, skipDuplicates = True, delayMs = 100, maxRetries = 3\<rparr>"

definition ex_world :: world where
  "ex_world = \<lparr>state = \<lparr>visitedUrls = {}, allowedDomains = {''a.com''}, downloadedUrls = {},
       contentHashes = {}\<rparr>,
     files = [], dirs = {''out''}, reqs = 0, browser = True, shuttingDown = False, trace = []\<rparr>"

text \<open>
  A directory after a crawl: a picture, a smaller rendition of it under a numbered name,
  a byte-identical copy, and a picture whose visual hash differs from theirs in one
  position.
\<close>

definition ex_disk :: filesystem where
  "ex_disk = [(''out/a.com/big.png'', ''big''), (''out/a.com/big_1.png'', ''tiny''),
              (''out/a.com/copy.png'', ''big''), (''out/a.com/near.png'', ''near'')]"

definition ex_stored :: world where
  "ex_stored = ex_world\<lparr>files := ex_disk\<rparr>"

definition ex_infos :: "ImageInfo list" where
  "ex_infos = List.map_filter (imageInfo ex_env ex_disk) (findImageFiles ex_disk ''out'')"

text \<open>
  A directory with a picture, a smaller rendition with the same visual hash, and a picture
  whose visual hash differs from theirs in one position.
\<close>

definition ex_similar :: filesystem where
  "ex_similar = [(''out/a.com/big.png'', ''big''), (''out/a.com/small.png'', ''tiny''),
                 (''out/a.com/near.png'', ''near'')]"

definition ex_album :: world where
  "ex_album = ex_world\<lparr>files := ex_similar\<rparr>"

section \<open>Basic facts\<close>

lemma emit_simps [simp]:
  "state (emit ev w) = state w" "files (emit ev w) = files w" "dirs (emit ev w) = dirs w"
  "reqs (emit ev w) = reqs w" "browser (emit ev w) = browser w"
  "shuttingDown (emit ev w) = shuttingDown w" "trace (emit ev w) = trace w @ [ev]"
  by (simp_all add: emit_def)

lemma logger_simps [simp]:
  "state (logger l m w) = state w" "files (logger l m w) = files w"
  "dirs (logger l m w) = dirs w" "reqs (logger l m w) = reqs w"
  "browser (logger l m w) = browser w" "shuttingDown (logger l m w) = shuttingDown w"
  "trace (logger l m w) = trace w @ [Log l m]"
  by (simp_all add: logger_def)

lemma request_simps [simp]:
  "state (request u w) = state w" "files (request u w) = files w"
  "dirs (request u w) = dirs w" "reqs (request u w) = Suc (reqs w)"
  "browser (request u w) = browser w" "shuttingDown (request u w) = shuttingDown w"
  "trace (request u w) = trace w @ [HttpGet u]"
  by (simp_all add: request_def)

lemma unlink_quiet_simps [simp]:
  "state (unlink_quiet p w) = state w" "files (unlink_quiet p w) = fs_unlink p (files w)"
  "dirs (unlink_quiet p w) = dirs w" "reqs (unlink_quiet p w) = reqs w"
  "browser (unlink_quiet p w) = browser w" "shuttingDown (unlink_quiet p w) = shuttingDown w"
  "trace (unlink_quiet p w) = trace w @ [Unlink p]"
  by (simp_all add: unlink_quiet_def)

lemma mkdir_recursive_simps [simp]:
  "state (mkdir_recursive p w) = state w" "files (mkdir_recursive p w) = files w"
  "dirs (mkdir_recursive p w) = dirs w \<union> set (ancestors p)"
  "reqs (mkdir_recursive p w) = reqs w" "browser (mkdir_recursive p w) = browser w"
  "shuttingDown (mkdir_recursive p w) = shuttingDown w"
  "trace (mkdir_recursive p w) = trace w @ [Mkdir p]"
  by (simp_all add: mkdir_recursive_def)

lemma fs_lookup_unlink [simp]:
  "fs_lookup (fs_unlink p fs) q = (if q = p then None else fs_lookup fs q)"
  by (induction fs) (auto simp: fs_lookup_def fs_unlink_def)

lemma fs_lookup_write [simp]:
  "fs_lookup (fs_write p c fs) q = (if q = p then Some c else fs_lookup fs q)"
  by (induction fs) (auto simp: fs_lookup_def)

lemma news_append [simp]: "trace w' = trace w @ evs \<Longrightarrow> news w w' = evs"
  by (simp add: news_def)

section \<open>Downloader: what a call leaves behind\<close>

lemma dl_post_pipeBody: "pipeBody fp b (request url w) = Some y \<Longrightarrow> dl_post fp w y"
  by (cases b) (auto simp: dl_post_def pipeBody_def fetchEvent_def)

lemma dl_post_request: "dl_post fp w (False, request url w)"
  by (auto simp: dl_post_def fetchEvent_def)

lemma dl_post_failed:
  "dl_post fp w (False, logger Debug [S ''Failed to download ('', N (int code), S ''): '', S url] (request url w))"
  by (auto simp: dl_post_def fetchEvent_def)

lemma dl_post_step: "dl_post fp (request url w) y \<Longrightarrow> dl_post fp w y"
  by (auto simp: dl_post_def fetchEvent_def)

lemma downloadFile_post:
  assumes "downloadFile e url fp w = Some y"
  shows "dl_post fp w y"
proof (rule downloadFile.raw_induct[OF _ assms], goal_cases)
  case (1 f e url filepath w ea)
  from 1(2) have v: "validUrl e url" by (auto split: if_splits)
  show ?case
  proof (cases "httpGet e (reqs w) url")
    case RequestError
    with 1(2) v show ?thesis by (auto simp: dl_post_request)
  next
    case RequestTimeout
    with 1(2) v show ?thesis by (auto simp: dl_post_request)
  next
    case (Response code location b)
    show ?thesis
    proof (cases "(code = 301 \<or> code = 302) \<and> location \<noteq> None \<and> location \<noteq> Some []")
      case True
      with 1(2) v Response have "f e (the location) filepath (request url w) = Some ea"
        by simp
      then have "dl_post filepath (request url w) ea" by (rule 1(1))
      then show ?thesis by (rule dl_post_step)
    next
      case False
      with 1(2) v Response show ?thesis
        by (cases "code = 200") (auto simp: dl_post_failed intro: dl_post_pipeBody)
    qed
  qed
qed

lemma retryLoop_post:
  "retryLoop e c url fp retry w = Some y \<Longrightarrow> rl_post fp w y"
proof (induction e c url fp retry w arbitrary: y rule: retryLoop.induct)
  case (1 e c url filepath retry w)
  show ?case
  proof (cases "retry < maxRetries c")
    case False
    with 1(2) show ?thesis by (auto simp: rl_post_def retryLoop.simps)
  next
    case True
    let ?w0 = "if retry > 0 then emit (Sleep 1000) w else w"
    from True 1(2) obtain ok w1 where dl: "downloadFile e url filepath ?w0 = Some (ok, w1)"
      by (auto simp: retryLoop.simps split: option.splits)
    from downloadFile_post[OF dl] have p1: "dl_post filepath ?w0 (ok, w1)" .
    show ?thesis
    proof (cases ok)
      case True
      with \<open>retry < maxRetries c\<close> 1(2) dl have "y = (True, retry, w1)"
        by (simp add: retryLoop.simps)
      with p1 True show ?thesis
        by (auto simp: rl_post_def dl_post_def fetchEvent_def split: if_splits)
    next
      case False
      with \<open>retry < maxRetries c\<close> 1(2) dl
      have rec: "retryLoop e c url filepath (retry + 1) w1 = Some y"
        by (simp add: retryLoop.simps)
      have "rl_post filepath w1 y"
        using 1(1)[OF \<open>retry < maxRetries c\<close> dl refl False rec] .
      with p1 show ?thesis
        by (auto simp: rl_post_def dl_post_def fetchEvent_def split: if_splits prod.splits)
    qed
  qed
qed

text \<open>The shape of what the checks after a successful fetch do.\<close>

lemma checkDimensions_shape:
  "checkDimensions e c fn fp content w =
     (case tooSmall e c fp content of
        Some d \<Rightarrow> w\<lparr>files := fs_unlink fp (files w),
                   trace := trace w @ [Log Debug [S ''Skipping (too small): '', S fn, S '' ('',
                              N (fst d), S ''x'', N (snd d), S '')''], Unlink fp]\<rparr>
      | None \<Rightarrow> w\<lparr>trace := trace w @ Log Success [S ''Downloaded: '', S fn] #
                     (if delayMs c > 0 then [Sleep (delayMs c)] else [])\<rparr>)"
  by (auto simp: checkDimensions_def unlink_quiet_def logger_def emit_def Let_def split: option.splits)

lemma checkSaved_post:
  assumes "fs_lookup (files w) fp = Some content"
  shows "\<exists>v. saved_post e c url fp w (checkSaved e c (getFilenameFromUrl e url) fp w) v"
proof (cases "content = []")
  case True
  with assms have "saved_post e c url fp w (checkSaved e c (getFilenameFromUrl e url) fp w) EmptyFile"
    by (simp add: saved_post_def checkSaved_def)
  then show ?thesis ..
next
  case ne: False
  show ?thesis
  proof (cases "skipDuplicates c \<and> getFileHash e content \<in> contentHashes (state w)")
    case True
    with assms ne
    have "saved_post e c url fp w (checkSaved e c (getFilenameFromUrl e url) fp w)
            (DuplicateContent content)"
      by (simp add: saved_post_def checkSaved_def)
    then show ?thesis ..
  next
    case nd: False
    show ?thesis
    proof (cases "tooSmall e c fp content")
      case None
      with assms ne nd
      have "saved_post e c url fp w (checkSaved e c (getFilenameFromUrl e url) fp w)
              (Kept content)"
        by (auto simp: saved_post_def checkSaved_def checkDimensions_shape registered_def
            downloadedLine_def Let_def)
      then show ?thesis ..
    next
      case (Some d)
      with assms ne nd
      have "saved_post e c url fp w (checkSaved e c (getFilenameFromUrl e url) fp w)
              (TooSmall content d)"
        by (auto simp: saved_post_def checkSaved_def checkDimensions_shape registered_def
            tooSmallLine_def Let_def)
      then show ?thesis ..
    qed
  qed
qed

lemma processDownload_outcome:
  assumes run: "processDownload e c url w = Some w'" and att: "attempted e c url w"
  shows "\<exists>evs v. outcome e c url w w' evs v"
proof -
  let ?dir = "path_join (outputDir c) (getDomain e url)"
  let ?fp = "target e c url w"
  let ?w0 = "emit (AddDownloaded url)
               (w\<lparr>state := (state w)\<lparr>downloadedUrls := insert url (downloadedUrls (state w))\<rparr>\<rparr>)"
  let ?w1 = "mkdir_recursive ?dir ?w0"
  from att have adm: "url \<notin> downloadedUrls (state w)" "getDomain e url \<in> allowedDomains (state w)"
    and nores: "\<not> resumeSkips e c url w" and nodry: "\<not> dryRun c"
    by (simp_all add: attempted_def admitted_def)
  from run adm have f: "fetchInto e c url (getDomain e url) ?w0 = Some w'"
    by (simp add: processDownload_def Let_def)
  from nores have nores': "\<not> (resume c \<and> (case fs_lookup (files ?w1) (path_join ?dir (getFilenameFromUrl e url)) of
                           Some content \<Rightarrow> length content > 0 | None \<Rightarrow> False))"
    by (simp add: resumeSkips_def destination_def)
  have fp: "ensureUniqueFilepath e (files ?w1) (path_join ?dir (getFilenameFromUrl e url)) = ?fp"
    by (simp add: target_def destination_def)
  from f nodry nores' fp obtain ok k w2 where
    rl: "retryLoop e c url ?fp 0 ?w1 = Some (ok, k, w2)" and
    fin: "w' = (if \<not> ok then unlink_quiet ?fp (logger Error [S ''Failed: '', S url] w2)
                else checkSaved e c (getFilenameFromUrl e url) ?fp w2)"
    unfolding fetchInto_def Let_def
    by (auto split: option.splits if_splits simp del: mkdir_recursive_simps emit_simps)
  from retryLoop_post[OF rl] obtain evs where
    p: "state w2 = state ?w1" "dirs w2 = dirs ?w1"
       "\<forall>q. q \<noteq> ?fp \<longrightarrow> fs_lookup (files w2) q = fs_lookup (files ?w1) q"
       "ok \<longrightarrow> (\<exists>content. fs_lookup (files w2) ?fp = Some content)"
       "trace w2 = trace ?w1 @ evs" "list_all (fetchEvent ?fp) evs"
    by (auto simp: rl_post_def)
  show ?thesis
  proof (cases ok)
    case False
    with fin p have "outcome e c url w w' evs Failed"
      by (simp add: outcome_def)
    then show ?thesis by blast
  next
    case True
    with p(4) obtain content where c: "fs_lookup (files w2) ?fp = Some content" by blast
    from checkSaved_post[OF c, of e c url] obtain v where
      "saved_post e c url ?fp w2 (checkSaved e c (getFilenameFromUrl e url) ?fp w2) v" ..
    with True fin p have "outcome e c url w w' evs v"
      by (simp add: outcome_def saved_post_def)
    then show ?thesis by blast
  qed
qed

lemma processDownload_known:
  "url \<in> downloadedUrls (state w) \<Longrightarrow> processDownload e c url w = Some w"
  by (simp add: processDownload_def)

lemma processDownload_disallowed:
  assumes "url \<notin> downloadedUrls (state w)" "getDomain e url \<notin> allowedDomains (state w)"
  shows "processDownload e c url w =
           Some (logger Debug [S ''Skipping (domain not allowed): '', S (getDomain e url)] w)"
  using assms by (simp add: processDownload_def Let_def)

lemma processDownload_resumeSkips:
  assumes "admitted e url w" "resumeSkips e c url w"
  shows "\<exists>w'. processDownload e c url w = Some w' \<and>
           trace w' = trace w @ [AddDownloaded url,
             Mkdir (path_join (outputDir c) (getDomain e url)),
             Log Debug [S ''Skipping (already exists): '', S (getFilenameFromUrl e url)]] \<and>
           files w' = files w \<and> reqs w' = reqs w \<and>
           dirs w' = dirs w \<union> set (ancestors (path_join (outputDir c) (getDomain e url))) \<and>
           contentHashes (state w') = contentHashes (state w) \<and>
           downloadedUrls (state w') = insert url (downloadedUrls (state w))"
  using assms
  by (simp add: processDownload_def fetchInto_def Let_def admitted_def resumeSkips_def
      destination_def)

lemma processDownload_dryRun:
  assumes "admitted e url w" "\<not> resumeSkips e c url w" "dryRun c"
  shows "\<exists>w'. processDownload e c url w = Some w' \<and>
           trace w' = trace w @ [AddDownloaded url,
             Mkdir (path_join (outputDir c) (getDomain e url)),
             Log Console [S ''[DRY-RUN] Would download: '', S url, S '' -> '',
                          S (target e c url w)]] \<and>
           files w' = files w \<and> reqs w' = reqs w \<and>
           dirs w' = dirs w \<union> set (ancestors (path_join (outputDir c) (getDomain e url))) \<and>
           contentHashes (state w') = contentHashes (state w) \<and>
           downloadedUrls (state w') = insert url (downloadedUrls (state w))"
  using assms
  by (simp add: processDownload_def fetchInto_def Let_def admitted_def resumeSkips_def
      destination_def target_def)

lemma fetchEvent_simps [simp]:
  "\<not> fetchEvent fp (Log Success m)" "\<not> fetchEvent fp (Log Error m)"
  "\<not> fetchEvent fp (Unlink p)" "\<not> fetchEvent fp (AddHash h)"
  "\<not> fetchEvent fp (AddDownloaded u)" "\<not> fetchEvent fp (Mkdir p)"
  "\<not> fetchEvent fp (Log Debug (S ''Skipping (too small): '' # m))"
  by (simp_all add: fetchEvent_def)

lemma fetchEvent_notin:
  "list_all (fetchEvent fp) evs \<Longrightarrow> \<not> fetchEvent fp ev \<Longrightarrow> ev \<notin> set evs"
  by (auto simp: list_all_iff)

lemma kept_iff:
  assumes "outcome e c url w w' evs v"
  shows "downloadedLine e url \<in> set (news w w') \<longleftrightarrow> (\<exists>content. v = Kept content)"
proof -
  from assms have t: "news w w' = [AddDownloaded url,
      Mkdir (path_join (outputDir c) (getDomain e url))] @ evs @
      finalEvents e c url (target e c url w) v"
    and fe: "list_all (fetchEvent (target e c url w)) evs"
    by (simp_all add: outcome_def)
  have n: "downloadedLine e url \<notin> set evs"
    by (rule fetchEvent_notin[OF fe]) (simp add: downloadedLine_def)
  show ?thesis
    using n by (cases v) (auto simp: t downloadedLine_def tooSmallLine_def registered_def)
qed

text \<open>
  Claim C1. A call of \<open>processDownload\<close> that reaches the retry loop and returns ends in
  one of two ways. Either it reports the download (\<open>Downloaded: ...\<close>) and the target
  holds a non-empty file that was never unlinked; or it rejects the download (all retries
  exhausted, empty file, duplicate content hash, image below a configured minimum) and
  then no file exists at the target path, the \<open>unlink\<close> of the target being the last
  thing the call does. The file system is the idealised one of this theory: an
  \<open>unlink\<close> of an existing file succeeds.
\<close>

theorem processDownload_rejected_file_deleted:
  assumes "processDownload e c url w = Some w'" and "attempted e c url w"
  shows "if downloadedLine e url \<in> set (news w w')
         then (\<exists>content. content \<noteq> [] \<and>
                 fs_lookup (files w') (target e c url w) = Some content) \<and>
              Unlink (target e c url w) \<notin> set (news w w')
         else fs_lookup (files w') (target e c url w) = None \<and>
              last (news w w') = Unlink (target e c url w)"
proof -
  from processDownload_outcome[OF assms] obtain evs v where o: "outcome e c url w w' evs v"
    by blast
  then have t: "news w w' = [AddDownloaded url,
      Mkdir (path_join (outputDir c) (getDomain e url))] @ evs @
      finalEvents e c url (target e c url w) v"
    and fe: "list_all (fetchEvent (target e c url w)) evs"
    and f: "fs_lookup (files w') (target e c url w) = finalFile v"
    and vf: "verdictFor e c (target e c url w) (contentHashes (state w)) v"
    by (simp_all add: outcome_def)
  have n: "Unlink (target e c url w) \<notin> set evs"
    by (rule fetchEvent_notin[OF fe]) simp
  show ?thesis
  proof (cases "\<exists>content. v = Kept content")
    case True
    then obtain content where v: "v = Kept content" ..
    with kept_iff[OF o] have k: "downloadedLine e url \<in> set (news w w')" by simp
    from v vf f n have "(\<exists>content. content \<noteq> [] \<and>
                 fs_lookup (files w') (target e c url w) = Some content) \<and>
              Unlink (target e c url w) \<notin> set (news w w')"
      by (auto simp: t registered_def downloadedLine_def)
    with k show ?thesis by simp
  next
    case False
    with kept_iff[OF o] have k: "downloadedLine e url \<notin> set (news w w')" by simp
    from False f have "fs_lookup (files w') (target e c url w) = None \<and>
              last (news w w') = Unlink (target e c url w)"
      by (cases v) (auto simp: t)
    with k show ?thesis by simp
  qed
qed

theorem processDownload_rejected_file_deleted_witness:
  "attempted ex_env ex_cfg ''http://a.com/tiny.png'' ex_world \<and>
   processDownload ex_env ex_cfg ''http://a.com/tiny.png'' ex_world \<noteq> None \<and>
   downloadedLine ex_env ''http://a.com/tiny.png'' \<notin>
     set (news ex_world (the (processDownload ex_env ex_cfg ''http://a.com/tiny.png'' ex_world))) \<and>
   fs_lookup (files (the (processDownload ex_env ex_cfg ''http://a.com/tiny.png'' ex_world)))
     (target ex_env ex_cfg ''http://a.com/tiny.png'' ex_world) = None"
proof -
  let ?u = "''http://a.com/tiny.png''"
  let ?r = "processDownload ex_env ex_cfg ?u ex_world"
  have att: "attempted ex_env ex_cfg ?u ex_world" by code_simp
  have ret: "?r \<noteq> None" by code_simp
  then obtain w' where run: "?r = Some w'" by blast
  have rejected: "downloadedLine ex_env ?u \<notin> set (news ex_world (the ?r))" by code_simp
  from processDownload_rejected_file_deleted[OF run att] rejected run
  have "fs_lookup (files (the ?r)) (target ex_env ex_cfg ?u ex_world) = None" by simp
  with att ret rejected show ?thesis by blast
qed

lemma processDownload_admitted:
  assumes adm: "admitted e url w" and run: "processDownload e c url w = Some w'"
  shows "downloadedUrls (state w') = insert url (downloadedUrls (state w)) \<and>
         take 2 (news w w') = [AddDownloaded url, Mkdir (path_join (outputDir c) (getDomain e url))]"
proof (cases "resumeSkips e c url w")
  case True
  from processDownload_resumeSkips[OF adm True, of ] run show ?thesis by auto
next
  case nr: False
  show ?thesis
  proof (cases "dryRun c")
    case True
    from processDownload_dryRun[OF adm nr True] run show ?thesis by auto
  next
    case False
    with adm nr have "attempted e c url w" by (simp add: attempted_def)
    from processDownload_outcome[OF run this] show ?thesis
      by (auto simp: outcome_def)
  qed
qed

lemma processDownload_again:
  assumes run: "processDownload e c url w = Some w'"
  shows "processDownload e c url w' = Some w' \<or>
         processDownload e c url w' =
           Some (logger Debug [S ''Skipping (domain not allowed): '', S (getDomain e url)] w')"
proof (cases "url \<in> downloadedUrls (state w)")
  case True
  with run show ?thesis by (simp add: processDownload_known)
next
  case nk: False
  show ?thesis
  proof (cases "getDomain e url \<in> allowedDomains (state w)")
    case True
    with nk have "admitted e url w" by (simp add: admitted_def)
    from processDownload_admitted[OF this run] have "url \<in> downloadedUrls (state w')" by simp
    then show ?thesis by (simp add: processDownload_known)
  next
    case False
    with nk run have "w' = logger Debug [S ''Skipping (domain not allowed): '', S (getDomain e url)] w"
      by (simp add: processDownload_disallowed)
    with nk False show ?thesis by (simp add: processDownload_disallowed)
  qed
qed

text \<open>
  Claim C2, as the code has it. A URL already in \<open>downloadedUrls\<close> makes the call return
  at once, the world unchanged. A new URL whose host is not in \<open>allowedDomains\<close> is only
  logged as skipped: it is not added to \<open>downloadedUrls\<close>, and nothing else happens.
  A new URL with an allowed host is added to \<open>downloadedUrls\<close> as the first action of
  the call, before the \<open>mkdir\<close> that opens its I/O. Calling again for the same URL
  after a call has returned changes neither files nor directories nor the crawl state
  and issues no request: of two downloads of one URL at most one writes a file.
\<close>

theorem processDownload_marks_admitted_url_first:
  "(url \<in> downloadedUrls (state w) \<longrightarrow> processDownload e c url w = Some w) \<and>
   (url \<notin> downloadedUrls (state w) \<and> getDomain e url \<notin> allowedDomains (state w) \<longrightarrow>
      processDownload e c url w =
        Some (logger Debug [S ''Skipping (domain not allowed): '', S (getDomain e url)] w)) \<and>
   (\<forall>w'. admitted e url w \<and> processDownload e c url w = Some w' \<longrightarrow>
      downloadedUrls (state w') = insert url (downloadedUrls (state w)) \<and>
      take 2 (news w w') =
        [AddDownloaded url, Mkdir (path_join (outputDir c) (getDomain e url))]) \<and>
   (\<forall>w'. processDownload e c url w = Some w' \<longrightarrow>
      (\<exists>w''. processDownload e c url w' = Some w'' \<and> files w'' = files w' \<and>
             dirs w'' = dirs w' \<and> reqs w'' = reqs w' \<and> state w'' = state w'))"
proof (intro conjI allI impI)
  fix w' assume "processDownload e c url w = Some w'"
  from processDownload_again[OF this]
  show "\<exists>w''. processDownload e c url w' = Some w'' \<and> files w'' = files w' \<and>
             dirs w'' = dirs w' \<and> reqs w'' = reqs w' \<and> state w'' = state w'"
    by auto
qed (auto simp: processDownload_known processDownload_disallowed dest: processDownload_admitted)

theorem processDownload_marks_admitted_url_first_witness:
  "admitted ex_env ''http://a.com/big.png'' ex_world \<and>
   processDownload ex_env ex_cfg ''http://a.com/big.png'' ex_world \<noteq> None \<and>
   ''http://a.com/big.png'' \<in>
     downloadedUrls (state (the (processDownload ex_env ex_cfg ''http://a.com/big.png'' ex_world))) \<and>
   hd (news ex_world (the (processDownload ex_env ex_cfg ''http://a.com/big.png'' ex_world))) =
     AddDownloaded ''http://a.com/big.png'' \<and>
   files (the (processDownload ex_env ex_cfg ''http://a.com/big.png''
            (the (processDownload ex_env ex_cfg ''http://a.com/big.png'' ex_world)))) =
     files (the (processDownload ex_env ex_cfg ''http://a.com/big.png'' ex_world))"
proof -
  let ?u = "''http://a.com/big.png''"
  let ?r = "processDownload ex_env ex_cfg ?u ex_world"
  have adm: "admitted ex_env ?u ex_world" by code_simp
  have ret: "?r \<noteq> None" by code_simp
  then obtain w' where run: "?r = Some w'" by blast
  note T = processDownload_marks_admitted_url_first[of ?u ex_world ex_env ex_cfg]
  from T adm run have m: "downloadedUrls (state w') = insert ?u (downloadedUrls (state ex_world))"
    and t: "take 2 (news ex_world w') =
        [AddDownloaded ?u, Mkdir (path_join (outputDir ex_cfg) (getDomain ex_env ?u))]"
    by blast+
  from t have h: "hd (news ex_world w') = AddDownloaded ?u"
    by (cases "news ex_world w'") auto
  from T run obtain w'' where "processDownload ex_env ex_cfg ?u w' = Some w''" "files w'' = files w'"
    by blast
  with adm ret run m h show ?thesis by simp
qed

text \<open>
  The claim as stated promises that every URL not yet in \<open>downloadedUrls\<close> is added.
  A URL on a host outside the allow-list is not.
\<close>

theorem disallowed_url_is_not_marked:
  "''http://b.org/x.png'' \<notin> downloadedUrls (state ex_world) \<and>
   processDownload ex_env ex_cfg ''http://b.org/x.png'' ex_world \<noteq> None \<and>
   ''http://b.org/x.png'' \<notin>
     downloadedUrls (state (the (processDownload ex_env ex_cfg ''http://b.org/x.png'' ex_world)))"
  by code_simp

lemma processDownload_not_attempted:
  assumes run: "processDownload e c url w = Some w'" and na: "\<not> attempted e c url w"
  shows "contentHashes (state w') = contentHashes (state w) \<and> files w' = files w \<and>
         reqs w' = reqs w \<and> list_all (\<lambda>ev. (\<exists>m. ev = Log Debug m \<and> take 1 m \<noteq> [S ''Skipping (too small): '']) \<or> (\<exists>m. ev = Log Console m) \<or>
            (\<exists>p. ev = Mkdir p) \<or> ev = AddDownloaded url) (news w w')"
proof (cases "admitted e url w")
  case False
  with run show ?thesis
    by (cases "url \<in> downloadedUrls (state w)")
       (auto simp: admitted_def processDownload_known processDownload_disallowed news_def)
next
  case adm: True
  show ?thesis
  proof (cases "resumeSkips e c url w")
    case True
    from processDownload_resumeSkips[OF adm True, of ] run show ?thesis by auto
  next
    case nr: False
    with adm na have "dryRun c" by (simp add: attempted_def)
    from processDownload_dryRun[OF adm nr this] run show ?thesis by auto
  qed
qed

lemma tooSmall_iff:
  assumes "outcome e c url w w' evs v"
  shows "tooSmallLine e url d \<in> set (news w w') \<longleftrightarrow> (\<exists>content. v = TooSmall content d)"
proof -
  from assms have t: "news w w' = [AddDownloaded url,
      Mkdir (path_join (outputDir c) (getDomain e url))] @ evs @
      finalEvents e c url (target e c url w) v"
    and fe: "list_all (fetchEvent (target e c url w)) evs"
    by (simp_all add: outcome_def)
  have n: "tooSmallLine e url d \<notin> set evs"
    by (rule fetchEvent_notin[OF fe]) (simp add: tooSmallLine_def)
  show ?thesis
    using n by (cases v) (auto simp: t downloadedLine_def tooSmallLine_def registered_def prod_eq_iff)
qed

text \<open>
  Claim C5, as the code has it. Through any returning call \<open>contentHashes\<close> only
  grows, and it changes only when content deduplication is enabled. With deduplication
  enabled, the hash of a kept download is in the set, and so is the hash of a download
  that the dimension filter rejects: the hash is registered once the fetched file has
  passed the retry, non-empty and duplicate checks, and the registration is followed at
  once by the verdict of the dimension filter, which is either the \<open>Downloaded\<close> line
  for a file that stays, or the \<open>too small\<close> line and the \<open>unlink\<close> for a file
  that goes while its hash stays. A new entry of the set always belongs to one of these
  two.
\<close>

theorem contentHashes_registered_before_dimension_filter:
  assumes "processDownload e c url w = Some w'"
  shows "contentHashes (state w) \<subseteq> contentHashes (state w') \<and>
         (\<not> skipDuplicates c \<longrightarrow> contentHashes (state w') = contentHashes (state w)) \<and>
         (skipDuplicates c \<and> downloadedLine e url \<in> set (news w w') \<longrightarrow>
            (\<exists>content pre.
               fs_lookup (files w') (target e c url w) = Some content \<and>
               getFileHash e content \<in> contentHashes (state w') \<and>
               tooSmall e c (target e c url w) content = None \<and>
               news w w' = pre @ AddHash (getFileHash e content) # downloadedLine e url #
                             (if delayMs c > 0 then [Sleep (delayMs c)] else []))) \<and>
         (skipDuplicates c \<longrightarrow>
            (\<forall>d. tooSmallLine e url d \<in> set (news w w') \<longrightarrow>
               (\<exists>content pre.
                  content \<noteq> [] \<and> tooSmall e c (target e c url w) content = Some d \<and>
                  getFileHash e content \<notin> contentHashes (state w) \<and>
                  getFileHash e content \<in> contentHashes (state w') \<and>
                  fs_lookup (files w') (target e c url w) = None \<and>
                  news w w' = pre @ [AddHash (getFileHash e content), tooSmallLine e url d,
                                     Unlink (target e c url w)]))) \<and>
         (\<forall>h. h \<in> contentHashes (state w') \<and> h \<notin> contentHashes (state w) \<longrightarrow>
            AddHash h \<in> set (news w w') \<and>
            (downloadedLine e url \<in> set (news w w') \<or>
             (\<exists>d. tooSmallLine e url d \<in> set (news w w'))))"
proof (cases "attempted e c url w")
  case False
  from processDownload_not_attempted[OF assms False] have
    h: "contentHashes (state w') = contentHashes (state w)" and
    l: "list_all (\<lambda>ev. (\<exists>m. ev = Log Debug m \<and> take 1 m \<noteq> [S ''Skipping (too small): '']) \<or> (\<exists>m. ev = Log Console m) \<or>
            (\<exists>p. ev = Mkdir p) \<or> ev = AddDownloaded url) (news w w')"
    by simp_all
  from l have "downloadedLine e url \<notin> set (news w w')"
    by (auto simp: list_all_iff downloadedLine_def)
  moreover from l have "tooSmallLine e url d \<notin> set (news w w')" for d
    by (auto simp: list_all_iff tooSmallLine_def)
  ultimately show ?thesis using h by simp
next
  case True
  from processDownload_outcome[OF assms True] obtain evs v where o: "outcome e c url w w' evs v"
    by blast
  then have t: "news w w' = [AddDownloaded url,
      Mkdir (path_join (outputDir c) (getDomain e url))] @ evs @
      finalEvents e c url (target e c url w) v"
    and f: "fs_lookup (files w') (target e c url w) = finalFile v"
    and h: "contentHashes (state w') = contentHashes (state w) \<union> finalHashes e c v"
    and vf: "verdictFor e c (target e c url w) (contentHashes (state w)) v"
    by (simp_all add: outcome_def)
  note k = kept_iff[OF o]
  have 1: "contentHashes (state w) \<subseteq> contentHashes (state w')" using h by auto
  have 2: "\<not> skipDuplicates c \<longrightarrow> contentHashes (state w') = contentHashes (state w)"
    using h by (cases v) auto
  have 3: "skipDuplicates c \<and> downloadedLine e url \<in> set (news w w') \<longrightarrow>
            (\<exists>content pre.
               fs_lookup (files w') (target e c url w) = Some content \<and>
               getFileHash e content \<in> contentHashes (state w') \<and>
               tooSmall e c (target e c url w) content = None \<and>
               news w w' = pre @ AddHash (getFileHash e content) # downloadedLine e url #
                             (if delayMs c > 0 then [Sleep (delayMs c)] else []))"
  proof
    assume a: "skipDuplicates c \<and> downloadedLine e url \<in> set (news w w')"
    with k obtain content where v: "v = Kept content" by blast
    let ?pre = "[AddDownloaded url, Mkdir (path_join (outputDir c) (getDomain e url))] @ evs"
    from a v t have "news w w' = ?pre @ AddHash (getFileHash e content) # downloadedLine e url #
                             (if delayMs c > 0 then [Sleep (delayMs c)] else [])"
      by (simp add: registered_def)
    moreover from v f have "fs_lookup (files w') (target e c url w) = Some content" by simp
    moreover from v h a have "getFileHash e content \<in> contentHashes (state w')" by simp
    moreover from v vf have "tooSmall e c (target e c url w) content = None" by simp
    ultimately show "\<exists>content pre.
               fs_lookup (files w') (target e c url w) = Some content \<and>
               getFileHash e content \<in> contentHashes (state w') \<and>
               tooSmall e c (target e c url w) content = None \<and>
               news w w' = pre @ AddHash (getFileHash e content) # downloadedLine e url #
                             (if delayMs c > 0 then [Sleep (delayMs c)] else [])"
      by blast
  qed
  have 4: "skipDuplicates c \<longrightarrow>
            (\<forall>d. tooSmallLine e url d \<in> set (news w w') \<longrightarrow>
               (\<exists>content pre.
                  content \<noteq> [] \<and> tooSmall e c (target e c url w) content = Some d \<and>
                  getFileHash e content \<notin> contentHashes (state w) \<and>
                  getFileHash e content \<in> contentHashes (state w') \<and>
                  fs_lookup (files w') (target e c url w) = None \<and>
                  news w w' = pre @ [AddHash (getFileHash e content), tooSmallLine e url d,
                                     Unlink (target e c url w)]))"
  proof (intro impI allI)
    fix d assume sk: "skipDuplicates c" and a: "tooSmallLine e url d \<in> set (news w w')"
    from a tooSmall_iff[OF o, of d] obtain content where v: "v = TooSmall content d" by blast
    let ?pre = "[AddDownloaded url, Mkdir (path_join (outputDir c) (getDomain e url))] @ evs"
    from sk v t have "news w w' = ?pre @ [AddHash (getFileHash e content), tooSmallLine e url d,
                                     Unlink (target e c url w)]"
      by (simp add: registered_def)
    moreover from v f have "fs_lookup (files w') (target e c url w) = None" by simp
    moreover from v h sk have "getFileHash e content \<in> contentHashes (state w')" by simp
    moreover from v vf sk have "content \<noteq> []" "tooSmall e c (target e c url w) content = Some d"
      "getFileHash e content \<notin> contentHashes (state w)" by simp_all
    ultimately show "\<exists>content pre.
                  content \<noteq> [] \<and> tooSmall e c (target e c url w) content = Some d \<and>
                  getFileHash e content \<notin> contentHashes (state w) \<and>
                  getFileHash e content \<in> contentHashes (state w') \<and>
                  fs_lookup (files w') (target e c url w) = None \<and>
                  news w w' = pre @ [AddHash (getFileHash e content), tooSmallLine e url d,
                                     Unlink (target e c url w)]"
      by blast
  qed
  have 5: "\<forall>h. h \<in> contentHashes (state w') \<and> h \<notin> contentHashes (state w) \<longrightarrow>
            AddHash h \<in> set (news w w') \<and>
            (downloadedLine e url \<in> set (news w w') \<or>
             (\<exists>d. tooSmallLine e url d \<in> set (news w w')))"
    using h by (cases v) (auto simp: t registered_def split: if_splits)
  from 1 2 3 4 5 show ?thesis by blast
qed

theorem contentHashes_registered_before_dimension_filter_witness:
  "processDownload ex_env ex_cfg ''http://a.com/big.png'' ex_world \<noteq> None \<and>
   skipDuplicates ex_cfg \<and>
   downloadedLine ex_env ''http://a.com/big.png'' \<in>
     set (news ex_world (the (processDownload ex_env ex_cfg ''http://a.com/big.png'' ex_world))) \<and>
   contentHashes (state ex_world) \<subseteq>
     contentHashes (state (the (processDownload ex_env ex_cfg ''http://a.com/big.png'' ex_world))) \<and>
   (\<exists>content.
      fs_lookup (files (the (processDownload ex_env ex_cfg ''http://a.com/big.png'' ex_world)))
        (target ex_env ex_cfg ''http://a.com/big.png'' ex_world) = Some content \<and>
      getFileHash ex_env content \<in>
        contentHashes (state (the (processDownload ex_env ex_cfg ''http://a.com/big.png'' ex_world)))) \<and>
   processDownload ex_env ex_cfg ''http://a.com/tiny.png'' ex_world \<noteq> None \<and>
   tooSmallLine ex_env ''http://a.com/tiny.png'' (10, 10) \<in>
     set (news ex_world (the (processDownload ex_env ex_cfg ''http://a.com/tiny.png'' ex_world))) \<and>
   (\<exists>content.
      tooSmall ex_env ex_cfg (target ex_env ex_cfg ''http://a.com/tiny.png'' ex_world) content =
        Some (10, 10) \<and>
      getFileHash ex_env content \<in>
        contentHashes (state (the (processDownload ex_env ex_cfg ''http://a.com/tiny.png'' ex_world))) \<and>
      fs_lookup (files (the (processDownload ex_env ex_cfg ''http://a.com/tiny.png'' ex_world)))
        (target ex_env ex_cfg ''http://a.com/tiny.png'' ex_world) = None)"
proof -
  let ?u = "''http://a.com/big.png''"
  let ?r = "processDownload ex_env ex_cfg ?u ex_world"
  let ?t = "''http://a.com/tiny.png''"
  let ?s = "processDownload ex_env ex_cfg ?t ex_world"
  have ret: "?r \<noteq> None" by code_simp
  then obtain w' where run: "?r = Some w'" by blast
  have ret2: "?s \<noteq> None" by code_simp
  then obtain w2 where run2: "?s = Some w2" by blast
  have sk: "skipDuplicates ex_cfg" by code_simp
  have kept: "downloadedLine ex_env ?u \<in> set (news ex_world (the ?r))" by code_simp
  have small: "tooSmallLine ex_env ?t (10, 10) \<in> set (news ex_world (the ?s))" by code_simp
  note T = contentHashes_registered_before_dimension_filter[OF run]
  note T2 = contentHashes_registered_before_dimension_filter[OF run2]
  from T[THEN conjunct1] run
  have a: "contentHashes (state ex_world) \<subseteq> contentHashes (state (the ?r))" by simp
  from T[THEN conjunct2, THEN conjunct2, THEN conjunct1] sk kept run
  have b: "\<exists>content. fs_lookup (files (the ?r)) (target ex_env ex_cfg ?u ex_world) = Some content \<and>
                   getFileHash ex_env content \<in> contentHashes (state (the ?r))"
    by auto
  from T2[THEN conjunct2, THEN conjunct2, THEN conjunct2, THEN conjunct1, rule_format, OF sk,
          of "(10, 10)"] small run2
  have c: "\<exists>content.
      tooSmall ex_env ex_cfg (target ex_env ex_cfg ?t ex_world) content = Some (10, 10) \<and>
      getFileHash ex_env content \<in> contentHashes (state (the ?s)) \<and>
      fs_lookup (files (the ?s)) (target ex_env ex_cfg ?t ex_world) = None"
    by auto
  from ret sk kept a b ret2 small c show ?thesis by blast
qed

text \<open>
  The claim as stated promises that a registered hash belongs to a file that survives
  every rejection path. The hash of an image below the minimum stays registered although
  its file is deleted.
\<close>

theorem hash_of_deleted_small_image_stays_registered:
  "getFileHash ex_env ''tiny'' \<notin> contentHashes (state ex_world) \<and>
   processDownload ex_env ex_cfg ''http://a.com/tiny.png'' ex_world \<noteq> None \<and>
   getFileHash ex_env ''tiny'' \<in>
     contentHashes (state (the (processDownload ex_env ex_cfg ''http://a.com/tiny.png'' ex_world))) \<and>
   files (the (processDownload ex_env ex_cfg ''http://a.com/tiny.png'' ex_world)) = []"
  by code_simp

text \<open>
  Claim C9. A saved, non-empty file that is no content duplicate, has a recognised image
  extension and whose dimensions cannot be read (\<open>getImageDimensions\<close> yields null)
  passes the dimension filter whatever \<open>minWidth\<close> and \<open>minHeight\<close> are: the
  file system is unchanged, the file is reported as downloaded, and it is not unlinked.
\<close>

theorem unreadable_dimensions_keep_file:
  assumes "fs_lookup (files w) fpath = Some content" and "content \<noteq> []"
    and "\<not> (skipDuplicates c \<and> getFileHash e content \<in> contentHashes (state w))"
    and "drop 1 (toLowerCase (extname fpath)) \<in> set imageExtensions"
    and "getImageDimensions e content = None"
  shows "files (checkSaved e c fname fpath w) = files w \<and>
         Log Success [S ''Downloaded: '', S fname] \<in>
           set (news w (checkSaved e c fname fpath w)) \<and>
         Unlink fpath \<notin> set (news w (checkSaved e c fname fpath w))"
proof -
  from assms(4,5) have ts: "tooSmall e c fpath content = None"
    by (simp add: tooSmall_def Let_def)
  with assms(1,2,3) show ?thesis
    by (auto simp: checkSaved_def checkDimensions_shape news_def Let_def)
qed

theorem unreadable_dimensions_keep_file_witness:
  "fs_lookup (files (ex_world\<lparr>files := [(''out/a.com/raw.png'', ''raw'')]\<rparr>)) ''out/a.com/raw.png''
     = Some ''raw'' \<and>
   getImageDimensions ex_env ''raw'' = None \<and> minWidth ex_cfg = 100 \<and>
   files (checkSaved ex_env ex_cfg ''raw.png'' ''out/a.com/raw.png''
            (ex_world\<lparr>files := [(''out/a.com/raw.png'', ''raw'')]\<rparr>))
     = files (ex_world\<lparr>files := [(''out/a.com/raw.png'', ''raw'')]\<rparr>)"
proof -
  let ?w = "ex_world\<lparr>files := [(''out/a.com/raw.png'', ''raw'')]\<rparr>"
  have 1: "fs_lookup (files ?w) ''out/a.com/raw.png'' = Some ''raw''" by code_simp
  have 2: "''raw'' \<noteq> []" by simp
  have 3: "\<not> (skipDuplicates ex_cfg \<and> getFileHash ex_env ''raw'' \<in> contentHashes (state ?w))"
    by code_simp
  have 4: "drop 1 (toLowerCase (extname ''out/a.com/raw.png'')) \<in> set imageExtensions"
    by code_simp
  have 5: "getImageDimensions ex_env ''raw'' = None" by code_simp
  have 6: "minWidth ex_cfg = 100" by code_simp
  from unreadable_dimensions_keep_file[OF 1 2 3 4 5, where fname = "''raw.png''"] 1 5 6
  show ?thesis by blast
qed

section \<open>Downloader: retries and redirects\<close>

lemma httpGets_append [simp]: "httpGets (xs @ ys) = httpGets xs @ httpGets ys"
  by (induction xs rule: httpGets.induct) auto

lemma countResponses_append [simp]:
  "countResponses P e n (xs @ ys) =
     countResponses P e n xs + countResponses P e (n + length xs) ys"
  by (induction xs arbitrary: n) auto

lemma backoffs_append [simp]: "backoffs (xs @ ys) = backoffs xs + backoffs ys"
  by (simp add: backoffs_def)

lemma isRedirect_Response:
  "isRedirect (Response code location b) \<longleftrightarrow>
     (code = 301 \<or> code = 302) \<and> location \<noteq> None \<and> location \<noteq> Some []"
  by (cases location) (auto simp: isRedirect_def)

lemma redirect_not_success: "isRedirect r \<Longrightarrow> \<not> isSuccess r"
  by (auto simp: isRedirect_def isSuccess_def split: response.splits option.splits body.splits)

lemma dl_count_final:
  assumes "\<not> isRedirect (httpGet e (reqs w) url)"
    and "trace w' = trace w @ HttpGet url # evs" "httpGets evs = []" "backoffs evs = 0"
    and "reqs w' = Suc (reqs w)" and "ok \<longleftrightarrow> isSuccess (httpGet e (reqs w) url)"
  shows "dl_count e url w (ok, w')"
  unfolding dl_count_def
  apply (rule exI[of _ "HttpGet url # evs"])
  using assms by (auto simp: isFinal_def backoffs_def)

lemma hd_httpGets: "hd evs = HttpGet u \<Longrightarrow> httpGets evs \<noteq> [] \<Longrightarrow> hd (httpGets evs) = u"
  by (cases evs) auto

lemma chain_Cons:
  "us \<noteq> [] \<Longrightarrow> chain e url n (u # us) =
     (hd us = (if isRedirect (httpGet e n u) then redirectTarget (httpGet e n u) else url) \<and>
      chain e url (Suc n) us)"
  by (cases us) auto

lemma chain_append:
  "xs \<noteq> [] \<Longrightarrow> ys \<noteq> [] \<Longrightarrow> chain e url n (xs @ ys) =
     (chain e url n xs \<and>
      hd ys = (if isRedirect (httpGet e (n + length xs - 1) (last xs))
               then redirectTarget (httpGet e (n + length xs - 1) (last xs)) else url) \<and>
      chain e url (n + length xs) ys)"
proof (induction xs arbitrary: n)
  case Nil
  then show ?case by simp
next
  case (Cons x xs)
  show ?case
  proof (cases "xs = []")
    case True
    with Cons(3) show ?thesis by (simp add: chain_Cons)
  next
    case False
    with Cons(1)[OF False Cons(3), of "Suc n"] Cons(3) show ?thesis
      by (simp add: chain_Cons)
  qed
qed

lemma dl_count_step:
  assumes "isRedirect (httpGet e (reqs w) url)"
    and "dl_count e (redirectTarget (httpGet e (reqs w) url)) (request url w) y"
  shows "dl_count e url w y"
proof -
  from assms(2) obtain evs where
    t: "trace (snd y) = trace w @ HttpGet url # evs" and
    r: "reqs (snd y) = Suc (reqs w) + length (httpGets evs)" and
    f: "countResponses isFinal e (Suc (reqs w)) (httpGets evs) = 1" and
    s: "countResponses isSuccess e (Suc (reqs w)) (httpGets evs) = (if fst y then 1 else 0)" and
    n: "httpGets evs \<noteq> []" and
    h: "hd evs = HttpGet (redirectTarget (httpGet e (reqs w) url))" and
    l: "fst y \<longrightarrow> isSuccess (httpGet e (reqs (snd y) - 1) (last (httpGets evs)))" and
    fl: "isFinal (httpGet e (reqs (snd y) - 1) (last (httpGets evs)))" and
    c: "\<forall>u0. chain e u0 (Suc (reqs w)) (httpGets evs)" and
    b: "backoffs evs = 0"
    unfolding dl_count_def by auto
  from assms(1) have ns: "\<not> isSuccess (httpGet e (reqs w) url)" by (rule redirect_not_success)
  from h n have hg: "hd (httpGets evs) = redirectTarget (httpGet e (reqs w) url)"
    by (rule hd_httpGets)
  have c': "\<forall>u0. chain e u0 (reqs w) (httpGets (HttpGet url # evs))"
    using c hg n assms(1) by (simp add: chain_Cons)
  show ?thesis
    unfolding dl_count_def
    apply (rule exI[of _ "HttpGet url # evs"])
    using t r f s n l fl b assms(1) ns c' by (simp add: isFinal_def backoffs_def)
qed

lemma downloadFile_count:
  assumes "downloadFile e url fp w = Some y"
  shows "dl_count e url w y"
proof (rule downloadFile.raw_induct[OF _ assms], goal_cases)
  case (1 f e url filepath w ea)
  from 1(2) have v: "validUrl e url" by (auto split: if_splits)
  show ?case
  proof (cases "isRedirect (httpGet e (reqs w) url)")
    case True
    then obtain code location b where R: "httpGet e (reqs w) url = Response code location b"
      by (cases "httpGet e (reqs w) url") (auto simp: isRedirect_def)
    with True have c: "(code = 301 \<or> code = 302) \<and> location \<noteq> None \<and> location \<noteq> Some []"
      by (simp add: isRedirect_Response)
    with 1(2) v R have "f e (the location) filepath (request url w) = Some ea" by simp
    then have "dl_count e (the location) (request url w) ea" by (rule 1(1))
    moreover from R c have "redirectTarget (httpGet e (reqs w) url) = the location"
      by (auto simp: redirectTarget_def)
    ultimately show ?thesis using True by (simp add: dl_count_step)
  next
    case False
    show ?thesis
    proof (cases "httpGet e (reqs w) url")
      case RequestError
      with 1(2) v have "ea = (False, request url w)" by simp
      with False RequestError show ?thesis
        by (auto intro!: dl_count_final[where evs="[]"] simp: isSuccess_def backoffs_def)
    next
      case RequestTimeout
      with 1(2) v have "ea = (False, request url w)" by simp
      with False RequestTimeout show ?thesis
        by (auto intro!: dl_count_final[where evs="[]"] simp: isSuccess_def backoffs_def)
    next
      case (Response code location b)
      with False have nr: "\<not> ((code = 301 \<or> code = 302) \<and> location \<noteq> None \<and> location \<noteq> Some [])"
        by (simp add: isRedirect_Response)
      show ?thesis
      proof (cases "code = 200")
        case c: False
        with 1(2) v Response nr have
          "ea = (False, logger Debug [S ''Failed to download ('', N (int code), S ''): '', S url]
                               (request url w))" by auto
        with False Response c show ?thesis
          by (auto intro!: dl_count_final[where evs="[Log Debug [S ''Failed to download ('', N (int code), S ''): '', S url]]"]
              simp: isSuccess_def backoffs_def split: body.splits)
      next
        case True
        with 1(2) v Response nr have ea: "pipeBody filepath b (request url w) = Some ea" by auto
        show ?thesis
        proof (cases b)
          case (Finish content)
          with ea False Response True show ?thesis
            by (auto intro!: dl_count_final[where evs="[Write filepath]"]
                simp: isSuccess_def backoffs_def pipeBody_def)
        next
          case (StreamError content)
          with ea False Response True show ?thesis
            by (auto intro!: dl_count_final[where evs="[Write filepath]"]
                simp: isSuccess_def backoffs_def pipeBody_def)
        next
          case OpenError
          with ea False Response True show ?thesis
            by (auto intro!: dl_count_final[where evs="[]"]
                simp: isSuccess_def backoffs_def pipeBody_def)
        next
          case (Truncated content)
          with ea show ?thesis by (simp add: pipeBody_def)
        qed
      qed
    qed
  qed
qed

lemma retryLoop_count:
  "retryLoop e c url fp retry w = Some y \<Longrightarrow> 0 \<le> retry \<Longrightarrow> rl_count e c url retry w y"
proof (induction e c url fp retry w arbitrary: y rule: retryLoop.induct)
  case (1 e c url filepath retry w)
  show ?case
  proof (cases "retry < maxRetries c")
    case False
    with 1(2) have "y = (False, retry, w)" by (simp add: retryLoop.simps)
    moreover have "rl_evs e url retry False retry w w []"
      by (simp add: rl_evs_def attemptsMade_def backoffs_def)
    ultimately show ?thesis using False by (auto simp: rl_count_def)
  next
    case True
    let ?w0 = "if retry > 0 then emit (Sleep 1000) w else w"
    let ?pre = "if retry > 0 then [Sleep 1000] else []"
    have w0: "trace ?w0 = trace w @ ?pre" "reqs ?w0 = reqs w" by simp_all
    have pre: "httpGets ?pre = []" "backoffs ?pre = (if retry > 0 then 1 else 0)"
      by (simp_all add: backoffs_def)
    from True 1(2) obtain ok w1 where dl: "downloadFile e url filepath ?w0 = Some (ok, w1)"
      by (auto simp: retryLoop.simps split: option.splits)
    from downloadFile_count[OF dl] obtain evs1 where
      t1: "trace w1 = trace ?w0 @ evs1" and
      r1: "reqs w1 = reqs ?w0 + length (httpGets evs1)" and
      f1: "countResponses isFinal e (reqs ?w0) (httpGets evs1) = 1" and
      s1: "countResponses isSuccess e (reqs ?w0) (httpGets evs1) = (if ok then 1 else 0)" and
      n1: "httpGets evs1 \<noteq> []" and h1: "hd evs1 = HttpGet url" and
      l1: "ok \<longrightarrow> isSuccess (httpGet e (reqs w1 - 1) (last (httpGets evs1)))" and
      fl1: "isFinal (httpGet e (reqs w1 - 1) (last (httpGets evs1)))" and
      c1: "\<forall>u0. chain e u0 (reqs ?w0) (httpGets evs1)" and
      b1: "backoffs evs1 = 0"
      unfolding dl_count_def fst_conv snd_conv by blast
    from h1 n1 have hg1: "hd (httpGets evs1) = url" by (rule hd_httpGets)
    from n1 have ne1: "evs1 \<noteq> []" by auto
    have hd1: "retry = 0 \<longrightarrow> hd (?pre @ evs1 @ evs) = HttpGet url" for evs
      using h1 ne1 by simp
    show ?thesis
    proof (cases ok)
      case ok: True
      with True 1(2) dl have y: "y = (True, retry, w1)" by (simp add: retryLoop.simps)
      have "rl_evs e url retry True retry w w1 (?pre @ evs1)"
        unfolding rl_evs_def
      proof (intro conjI)
        show "trace w1 = trace w @ ?pre @ evs1" using t1 w0 by simp
        show "reqs w1 = reqs w + length (httpGets (?pre @ evs1))" using r1 w0 pre by simp
        show "countResponses isFinal e (reqs w) (httpGets (?pre @ evs1)) = attemptsMade retry True retry"
          using f1 w0 pre by (simp add: attemptsMade_def)
        show "countResponses isSuccess e (reqs w) (httpGets (?pre @ evs1)) = (if True then 1 else 0)"
          using s1 ok w0 pre by simp
        show "True \<longrightarrow> isSuccess (httpGet e (reqs w1 - 1) (last (httpGets (?pre @ evs1))))"
          using l1 ok pre by simp
        show "retry = 0 \<and> ?pre @ evs1 \<noteq> [] \<longrightarrow> hd (?pre @ evs1) = HttpGet url"
          using hd1[of "[]"] by simp
        show "chain e url (reqs w) (httpGets (?pre @ evs1))"
          using c1 w0 pre by simp
        show "httpGets (?pre @ evs1) \<noteq> [] \<longrightarrow>
                hd (httpGets (?pre @ evs1)) = url \<and>
                isFinal (httpGet e (reqs w1 - 1) (last (httpGets (?pre @ evs1))))"
          using hg1 fl1 pre by simp
        show "backoffs (?pre @ evs1) = attemptsMade retry True retry -
                (if retry = 0 \<and> attemptsMade retry True retry > 0 then 1 else 0)"
          using b1 pre 1(3) by (simp add: attemptsMade_def)
      qed
      with True show ?thesis unfolding y rl_count_def by auto
    next
      case nok: False
      with True 1(2) dl
      have rec: "retryLoop e c url filepath (retry + 1) w1 = Some y"
        by (simp add: retryLoop.simps)
      from 1(3) have "0 \<le> retry + 1" by simp
      from 1(1)[OF True dl refl nok rec this]
      have IH: "rl_count e c url (retry + 1) w1 y" .
      obtain ok' k w' where y: "y = (ok', k, w')" by (cases y)
      from IH have k: "retry + 1 \<le> k" "ok' \<longrightarrow> k < maxRetries c"
          "\<not> ok' \<longrightarrow> k = max (retry + 1) (maxRetries c)"
        and ex: "\<exists>evs. rl_evs e url (retry + 1) ok' k w1 w' evs"
        unfolding y rl_count_def by simp_all
      from ex obtain evs2 where e2: "rl_evs e url (retry + 1) ok' k w1 w' evs2" ..
      from 1(3) have r0: "retry + 1 \<noteq> 0" by simp
      from e2 have
        t2: "trace w' = trace w1 @ evs2" and
        r2: "reqs w' = reqs w1 + length (httpGets evs2)" and
        f2: "countResponses isFinal e (reqs w1) (httpGets evs2) = attemptsMade (retry + 1) ok' k" and
        s2: "countResponses isSuccess e (reqs w1) (httpGets evs2) = (if ok' then 1 else 0)" and
        l2: "ok' \<longrightarrow> isSuccess (httpGet e (reqs w' - 1) (last (httpGets evs2)))" and
        c2: "chain e url (reqs w1) (httpGets evs2)" and
        hf2: "httpGets evs2 \<noteq> [] \<longrightarrow> hd (httpGets evs2) = url \<and>
               isFinal (httpGet e (reqs w' - 1) (last (httpGets evs2)))"
        unfolding rl_evs_def by blast+
      from e2 r0 have b2: "backoffs evs2 = attemptsMade (retry + 1) ok' k"
        unfolding rl_evs_def by simp
      have a: "attemptsMade retry ok' k = Suc (attemptsMade (retry + 1) ok' k)"
        using k(1) by (simp add: attemptsMade_def nat_diff_distrib' Suc_nat_eq_nat_zadd1)
      have g2: "ok' \<longrightarrow> httpGets evs2 \<noteq> []"
        using s2 by (cases "httpGets evs2") auto
      have "rl_evs e url retry ok' k w w' (?pre @ evs1 @ evs2)"
        unfolding rl_evs_def
      proof (intro conjI)
        show "trace w' = trace w @ ?pre @ evs1 @ evs2" using t1 t2 w0 by simp
        show "reqs w' = reqs w + length (httpGets (?pre @ evs1 @ evs2))"
          using r1 r2 w0 pre by simp
        show "countResponses isFinal e (reqs w) (httpGets (?pre @ evs1 @ evs2)) = attemptsMade retry ok' k"
          using f1 f2 r1 w0 pre a by simp
        show "countResponses isSuccess e (reqs w) (httpGets (?pre @ evs1 @ evs2)) = (if ok' then 1 else 0)"
          using s1 s2 r1 nok w0 pre by simp
        show "ok' \<longrightarrow> isSuccess (httpGet e (reqs w' - 1) (last (httpGets (?pre @ evs1 @ evs2))))"
          using l2 g2 pre by simp
        show "retry = 0 \<and> ?pre @ evs1 @ evs2 \<noteq> [] \<longrightarrow> hd (?pre @ evs1 @ evs2) = HttpGet url"
          using hd1[of evs2] by simp
        show "chain e url (reqs w) (httpGets (?pre @ evs1 @ evs2))"
        proof (cases "httpGets evs2 = []")
          case True
          with c1 w0 pre show ?thesis by simp
        next
          case False
          from fl1 r1 w0 have "\<not> isRedirect (httpGet e (reqs w + length (httpGets evs1) - 1)
                                   (last (httpGets evs1)))"
            by (simp add: isFinal_def)
          with False hf2 c1 c2 r1 w0 n1 show ?thesis
            by (simp add: pre chain_append)
        qed
        show "httpGets (?pre @ evs1 @ evs2) \<noteq> [] \<longrightarrow>
                hd (httpGets (?pre @ evs1 @ evs2)) = url \<and>
                isFinal (httpGet e (reqs w' - 1) (last (httpGets (?pre @ evs1 @ evs2))))"
        proof (cases "httpGets evs2 = []")
          case True
          with hg1 fl1 n1 r2 show ?thesis by (simp add: pre)
        next
          case False
          with hg1 hf2 n1 show ?thesis by (simp add: pre)
        qed
        show "backoffs (?pre @ evs1 @ evs2) = attemptsMade retry ok' k -
                (if retry = 0 \<and> attemptsMade retry ok' k > 0 then 1 else 0)"
          using b1 b2 pre a 1(3) by simp
      qed
      then have "\<exists>evs. rl_evs e url retry ok' k w w' evs" ..
      moreover from k True have "retry \<le> k" "ok' \<longrightarrow> k < maxRetries c"
        "\<not> ok' \<longrightarrow> k = max retry (maxRetries c)" by auto
      ultimately show ?thesis unfolding y rl_count_def by simp
    qed
  qed
qed

lemma downloadFile_final:
  assumes "validUrl e url" "\<not> isRedirect (httpGet e (reqs w) url)"
    "\<not> stalls (httpGet e (reqs w) url)"
  shows "downloadFile e url fp w \<noteq> None"
proof (cases "httpGet e (reqs w) url")
  case RequestError
  with assms(1) show ?thesis by (subst downloadFile.simps) simp
next
  case RequestTimeout
  with assms(1) show ?thesis by (subst downloadFile.simps) simp
next
  case (Response code location b)
  with assms(2) have nr: "\<not> ((code = 301 \<or> code = 302) \<and> location \<noteq> None \<and> location \<noteq> Some [])"
    by (simp add: isRedirect_Response)
  from assms(3) Response have "code = 200 \<longrightarrow> pipeBody fp b (request url w) \<noteq> None"
    by (cases b) (simp_all add: stalls_def pipeBody_def)
  with assms(1) Response nr show ?thesis by (subst downloadFile.simps) auto
qed

lemma downloadFile_returns:
  assumes inf: "\<forall>n. \<exists>m\<ge>n. \<forall>u. \<not> isRedirect (httpGet e m u)"
    and ns: "\<forall>n u. \<not> stalls (httpGet e n u)"
    and rv: "\<forall>n u. isRedirect (httpGet e n u) \<longrightarrow> validUrl e (redirectTarget (httpGet e n u))"
    and v: "validUrl e url"
  shows "downloadFile e url fp w \<noteq> None"
proof -
  from inf obtain m where m: "reqs w \<le> m" "\<forall>u. \<not> isRedirect (httpGet e m u)" by blast
  from m v show ?thesis
  proof (induction "m - reqs w" arbitrary: w url)
    case 0
    then have "\<not> isRedirect (httpGet e (reqs w) url)" by simp
    with 0(4) ns show ?case by (simp add: downloadFile_final)
  next
    case (Suc d)
    show ?case
    proof (cases "isRedirect (httpGet e (reqs w) url)")
      case False
      with Suc(5) ns show ?thesis by (simp add: downloadFile_final)
    next
      case True
      then obtain code location b where R: "httpGet e (reqs w) url = Response code location b"
        by (cases "httpGet e (reqs w) url") (auto simp: isRedirect_def)
      with True have c: "(code = 301 \<or> code = 302) \<and> location \<noteq> None \<and> location \<noteq> Some []"
        by (simp add: isRedirect_Response)
      from R c have t: "redirectTarget (httpGet e (reqs w) url) = the location"
        by (auto simp: redirectTarget_def)
      from rv True t have vl: "validUrl e (the location)" by metis
      from Suc(2) have d: "d = m - reqs (request url w)" by simp
      from Suc(2) have le: "reqs (request url w) \<le> m" by simp
      from Suc(1)[OF d le Suc(4) vl]
      have "downloadFile e (the location) fp (request url w) \<noteq> None" .
      with R c Suc(5) show ?thesis
        by (subst downloadFile.simps) auto
    qed
  qed
qed

lemma retryLoop_returns:
  assumes inf: "\<forall>n. \<exists>m\<ge>n. \<forall>u. \<not> isRedirect (httpGet e m u)"
    and ns: "\<forall>n u. \<not> stalls (httpGet e n u)"
    and rv: "\<forall>n u. isRedirect (httpGet e n u) \<longrightarrow> validUrl e (redirectTarget (httpGet e n u))"
    and v: "validUrl e url"
  shows "retryLoop e c url fp retry w \<noteq> None"
  using inf ns rv v
proof (induction e c url fp retry w rule: retryLoop.induct)
  case (1 e c url filepath retry w)
  show ?case
  proof (cases "retry < maxRetries c")
    case False
    then show ?thesis by (simp add: retryLoop.simps)
  next
    case True
    let ?w0 = "if retry > 0 then emit (Sleep 1000) w else w"
    from downloadFile_returns[OF 1(2) 1(3) 1(4) 1(5)] obtain ok w1 where
      dl: "downloadFile e url filepath ?w0 = Some (ok, w1)" by fastforce
    show ?thesis
    proof (cases ok)
      case True
      with \<open>retry < maxRetries c\<close> dl show ?thesis
        by (subst retryLoop.simps) simp
    next
      case False
      from 1(1)[OF True dl refl False 1(2) 1(3) 1(4) 1(5)]
      have "retryLoop e c url filepath (retry + 1) w1 \<noteq> None" .
      with True dl False show ?thesis
        by (subst retryLoop.simps) simp
    qed
  qed
qed

text \<open>
  The three ways in which a single response leaves the caller without an answer: the URL
  is rejected by \<open>new URL\<close>, a followed redirect names such a URL, or the body breaks
  off.
\<close>

lemma downloadFile_invalid_url:
  "\<not> validUrl e url \<Longrightarrow> downloadFile e url fp w = None"
  by (subst downloadFile.simps) simp

lemma downloadFile_invalid_location:
  assumes "validUrl e url" "isRedirect (httpGet e (reqs w) url)"
    "\<not> validUrl e (redirectTarget (httpGet e (reqs w) url))"
  shows "downloadFile e url fp w = None"
proof -
  from assms(2) obtain code location b where R: "httpGet e (reqs w) url = Response code location b"
    by (cases "httpGet e (reqs w) url") (auto simp: isRedirect_def)
  with assms(2) have c: "(code = 301 \<or> code = 302) \<and> location \<noteq> None \<and> location \<noteq> Some []"
    by (simp add: isRedirect_Response)
  from R c have "redirectTarget (httpGet e (reqs w) url) = the location"
    by (auto simp: redirectTarget_def)
  with assms(3) have "downloadFile e (the location) fp (request url w) = None"
    by (simp add: downloadFile_invalid_url)
  with assms(1) R c show ?thesis by (subst downloadFile.simps) simp
qed

lemma downloadFile_stalls:
  assumes "validUrl e url" "stalls (httpGet e (reqs w) url)"
  shows "downloadFile e url fp w = None"
proof -
  from assms(2) obtain location content where
    "httpGet e (reqs w) url = Response 200 location (Truncated content)"
    by (auto simp: stalls_def split: response.splits body.splits)
  with assms(1) show ?thesis by (subst downloadFile.simps) (simp add: pipeBody_def)
qed




section \<open>Crawler: visited pages and allowed domains\<close>

lemma quiet_simps [simp]: "quiet (Log l m)"
  by (simp add: quiet_def)

lemma adds_append [simp]: "adds (xs @ ys) = adds xs @ adds ys"
  by (induction xs rule: adds.induct) auto

lemma gotos_append [simp]: "gotos (xs @ ys) = gotos xs @ gotos ys"
  by (induction xs rule: gotos.induct) auto

lemma markedFirst_append [simp]:
  "markedFirst vs (xs @ ys) = (markedFirst vs xs \<and> markedFirst (vs \<union> set (adds xs)) ys)"
  by (induction vs xs rule: markedFirst.induct) auto

lemma markedFirst_mono: "markedFirst vs evs \<Longrightarrow> vs \<subseteq> vs' \<Longrightarrow> markedFirst vs' evs"
proof (induction vs evs arbitrary: vs' rule: markedFirst.induct)
  case (2 vs u evs)
  from 2(2) have "markedFirst (insert u vs) evs" by simp
  moreover from 2(3) have "insert u vs \<subseteq> insert u vs'" by auto
  ultimately show ?case using 2(1) by simp
qed auto

lemma markedFirst_gotos: "markedFirst vs evs \<Longrightarrow> set (gotos evs) \<subseteq> vs \<union> set (adds evs)"
  by (induction vs evs rule: markedFirst.induct) auto

lemma quiet_events:
  "list_all quiet evs \<Longrightarrow> adds evs = [] \<and> gotos evs = [] \<and> markedFirst vs evs"
  by (induction evs) (auto simp: quiet_def split: event.splits)

lemma crawl_post_refl: "crawl_post R w w"
  by (simp add: crawl_post_def)

lemma crawl_post_weaken: "crawl_post R w w' \<Longrightarrow> R \<subseteq> R' \<Longrightarrow> crawl_post R' w w'"
  unfolding crawl_post_def by blast

lemma crawl_post_trans:
  assumes "crawl_post R1 w w1" "crawl_post R2 w1 w2"
  shows "crawl_post (R1 \<union> R2) w w2"
proof -
  from assms(1) obtain evs1 where
    t1: "trace w1 = trace w @ evs1" and
    v1: "visitedUrls (state w1) = visitedUrls (state w) \<union> set (adds evs1)" and
    d1: "set (adds evs1) \<inter> visitedUrls (state w) = {}" and
    g1: "distinct (gotos evs1)" and m1: "markedFirst {} evs1" and r1: "set (gotos evs1) \<subseteq> R1"
    unfolding crawl_post_def by blast
  from assms(2) obtain evs2 where
    t2: "trace w2 = trace w1 @ evs2" and
    v2: "visitedUrls (state w2) = visitedUrls (state w1) \<union> set (adds evs2)" and
    d2: "set (adds evs2) \<inter> visitedUrls (state w1) = {}" and
    g2: "distinct (gotos evs2)" and m2: "markedFirst {} evs2" and r2: "set (gotos evs2) \<subseteq> R2"
    unfolding crawl_post_def by blast
  from markedFirst_gotos[OF m1] have s1: "set (gotos evs1) \<subseteq> set (adds evs1)" by simp
  from markedFirst_gotos[OF m2] have s2: "set (gotos evs2) \<subseteq> set (adds evs2)" by simp
  have m: "markedFirst {} (evs1 @ evs2)"
    using m1 markedFirst_mono[OF m2, of "set (adds evs1)"] by simp
  have g: "distinct (gotos (evs1 @ evs2))"
    using g1 g2 s1 s2 d2 v1 by auto
  show ?thesis
    unfolding crawl_post_def
    apply (rule exI[of _ "evs1 @ evs2"])
    using t1 t2 v1 v2 d1 d2 m g r1 r2 by auto
qed

lemma announceLinks_trace:
  "\<exists>evs. trace (announceLinks links w) = trace w @ evs \<and> list_all quiet evs \<and>
         state (announceLinks links w) = state w \<and>
         shuttingDown (announceLinks links w) = shuttingDown w \<and>
         browser (announceLinks links w) = browser w"
proof -
  have "\<exists>evs. trace (foldl (\<lambda>w l. logger Debug [S ''  Link: '', S l] w) w0 ls) = trace w0 @ evs \<and>
          list_all quiet evs \<and>
          state (foldl (\<lambda>w l. logger Debug [S ''  Link: '', S l] w) w0 ls) = state w0 \<and>
          shuttingDown (foldl (\<lambda>w l. logger Debug [S ''  Link: '', S l] w) w0 ls) = shuttingDown w0 \<and>
          browser (foldl (\<lambda>w l. logger Debug [S ''  Link: '', S l] w) w0 ls) = browser w0"
    for w0 ls
  proof (induction ls arbitrary: w0)
    case Nil
    show ?case by simp
  next
    case (Cons l ls)
    from Cons[of "logger Debug [S ''  Link: '', S l] w0"] obtain evs where
      "trace (foldl (\<lambda>w l. logger Debug [S ''  Link: '', S l] w) w0 (l # ls)) =
         trace w0 @ Log Debug [S ''  Link: '', S l] # evs" "list_all quiet evs"
      "state (foldl (\<lambda>w l. logger Debug [S ''  Link: '', S l] w) w0 (l # ls)) = state w0"
      "shuttingDown (foldl (\<lambda>w l. logger Debug [S ''  Link: '', S l] w) w0 (l # ls)) = shuttingDown w0"
      "browser (foldl (\<lambda>w l. logger Debug [S ''  Link: '', S l] w) w0 (l # ls)) = browser w0"
      by auto
    then show ?case
      by (intro exI[of _ "Log Debug [S ''  Link: '', S l] # evs"]) simp
  qed
  from this[of "logger Info [S ''Found '', N (int (length links)), S '' page links to crawl''] w"
      "take 10 links"]
  obtain evs where
    "trace (announceLinks links w) =
       trace w @ Log Info [S ''Found '', N (int (length links)), S '' page links to crawl''] # evs"
    "list_all quiet evs" "state (announceLinks links w) = state w"
    "shuttingDown (announceLinks links w) = shuttingDown w"
    "browser (announceLinks links w) = browser w"
    unfolding announceLinks_def by auto
  then show ?thesis
    by (intro exI[of _ "Log Info [S ''Found '', N (int (length links)), S '' page links to crawl''] # evs"])
       simp
qed

lemma handOver_trace:
  assumes "handOver streaming ms w = (out, w')"
  shows "\<exists>evs. trace w' = trace w @ evs \<and> list_all quiet evs \<and> state w' = state w"
  using assms by (auto simp: handOver_def Let_def split: if_splits)

text \<open>One page: marked, loaded, announced.\<close>

lemma page_post:
  assumes fresh: "url \<notin> visitedUrls (state w)"
    and t: "trace w' = trace w @ AddVisited url #
              Log Info [S ''Crawling (depth='', N depth, S ''): '', S url] # Goto url # evs"
    and q: "list_all quiet evs"
    and s: "visitedUrls (state w') = insert url (visitedUrls (state w))"
  shows "crawl_post {url} w w'"
  unfolding crawl_post_def
  apply (rule exI[of _ "AddVisited url #
      Log Info [S ''Crawling (depth='', N depth, S ''): '', S url] # Goto url # evs"])
  using fresh t s quiet_events[OF q] by auto

lemma mark_post:
  assumes fresh: "url \<notin> visitedUrls (state w)"
  shows "crawl_post R w (markVisited url depth w)"
  unfolding crawl_post_def
  apply (rule exI[of _ "[AddVisited url, Log Info [S ''Crawling (depth='', N depth, S ''): '', S url]]"])
  using fresh by (simp add: markVisited_def)

lemma navigate_simps [simp]:
  "state (navigate e url w) = state w" "trace (navigate e url w) = trace w @ [Goto url]"
  "browser (navigate e url w) = browser w" "files (navigate e url w) = files w"
  "dirs (navigate e url w) = dirs w"
  "shuttingDown (navigate e url w) = (shuttingDown w \<or> interrupted e url)"
  by (simp_all add: navigate_def)

lemma markVisited_simps [simp]:
  "visitedUrls (state (markVisited url depth w)) = insert url (visitedUrls (state w))"
  "trace (markVisited url depth w) =
     trace w @ [AddVisited url, Log Info [S ''Crawling (depth='', N depth, S ''): '', S url]]"
  "browser (markVisited url depth w) = browser w"
  "shuttingDown (markVisited url depth w) = shuttingDown w"
  "files (markVisited url depth w) = files w" "dirs (markVisited url depth w) = dirs w"
  by (simp_all add: markVisited_def)

lemma reach_self: "url \<in> reach e src n url"
  by (cases n) simp_all

lemma crawl_invariant:
  "crawl_post (reach e src (nat depth) url) w (snd (crawlPage e s url depth src w))"
  "crawl_post (\<Union>v\<in>set links. reach e src (nat depth) v) w
     (snd (crawlLinks e s links depth src w))"
proof (induction e s url depth src w and e s links depth src w
    rule: crawlPage_crawlLinks.induct)
  case (1 e s url depth src w)
  show ?case
  proof (cases "shuttingDown w \<or> depth < 0 \<or> url \<in> visitedUrls (state w)")
    case True
    then show ?thesis by (simp add: crawlPage.simps crawl_post_refl)
  next
    case g1: False
    then have fresh: "url \<notin> visitedUrls (state w)" by simp
    show ?thesis
    proof (cases "\<not> browser w \<or> shuttingDown w")
      case True
      with g1 show ?thesis by (simp add: crawlPage.simps mark_post[OF fresh])
    next
      case g2: False
      show ?thesis
      proof (cases "render e url")
        case NewPageFails
        with g1 g2 show ?thesis by (simp add: crawlPage.simps mark_post[OF fresh])
      next
        case GotoFails
        let ?w2 = "navigate e url (markVisited url depth w)"
        let ?w3 = "if \<not> shuttingDown ?w2 then logger Warn [S ''Could not fetch: '', S url] ?w2 else ?w2"
        from g1 g2 GotoFails have r: "snd (crawlPage e s url depth src w) = ?w3"
          by (simp add: crawlPage.simps Let_def)
        have "crawl_post {url} w ?w3"
          by (rule page_post[OF fresh, where depth = depth and evs = "if \<not> shuttingDown ?w2 then [Log Warn [S ''Could not fetch: '', S url]] else []"])
             (simp_all)
        then show ?thesis unfolding r
          by (rule crawl_post_weaken) (simp add: reach_self)
      next
        case (Loaded allUrls media links)
        let ?w2 = "navigate e url (markVisited url depth w)"
        obtain out w4 where h: "handOver s (extractMediaUrls e media url) ?w2 = (out, w4)"
          by (cases "handOver s (extractMediaUrls e media url) ?w2")
        from handOver_trace[OF h] obtain evs4 where
          t4: "trace w4 = trace ?w2 @ evs4" and q4: "list_all quiet evs4" and
          s4: "state w4 = state ?w2" by blast
        show ?thesis
        proof (cases out)
          case None
          let ?w5 = "if \<not> shuttingDown w4 then logger Warn [S ''Could not fetch: '', S url] w4
                     else w4"
          from g1 g2 Loaded h None have r: "snd (crawlPage e s url depth src w) = ?w5"
            by (simp add: crawlPage.simps)
          have "crawl_post {url} w ?w5"
            by (rule page_post[OF fresh, where depth = depth and
                  evs = "evs4 @ (if \<not> shuttingDown w4
                                 then [Log Warn [S ''Could not fetch: '', S url]] else [])"])
               (simp_all add: t4 q4 s4)
          then show ?thesis unfolding r
            by (rule crawl_post_weaken) (simp add: reach_self)
        next
          case (Some mediaUrls)
          show ?thesis
          proof (cases "depth > 0")
            case False
            with g1 g2 Loaded h Some have r: "snd (crawlPage e s url depth src w) = w4"
              by (simp add: crawlPage.simps)
            have "crawl_post {url} w w4"
              by (rule page_post[OF fresh, where depth = depth and evs = evs4])
                 (simp_all add: t4 q4 s4)
            then show ?thesis unfolding r
              by (rule crawl_post_weaken) (simp add: reach_self)
          next
            case True
            let ?links = "extractPageLinks e links url src"
            let ?w6 = "announceLinks ?links w4"
            from announceLinks_trace[of ?links w4] obtain evs6 where
              t6: "trace ?w6 = trace w4 @ evs6" and q6: "list_all quiet evs6" and
              s6: "state ?w6 = state w4" by blast
            have p1: "crawl_post {url} w ?w6"
              by (rule page_post[OF fresh, where depth = depth and evs = "evs4 @ evs6"])
                 (simp_all add: t4 t6 q4 q6 s4 s6)
            have p2: "crawl_post (\<Union>v\<in>set ?links. reach e src (nat (depth - 1)) v) ?w6
                        (snd (crawlLinks e s ?links (depth - 1) src ?w6))"
              by (rule 1[OF g1 g2 Loaded h[symmetric] Some True])
            from g1 g2 Loaded h Some True
            have r: "snd (crawlPage e s url depth src w) =
                       snd (crawlLinks e s ?links (depth - 1) src ?w6)"
              by (simp add: crawlPage.simps split: prod.splits)
            from True have n: "nat depth = Suc (nat (depth - 1))" by simp
            have sub: "{url} \<union> (\<Union>v\<in>set ?links. reach e src (nat (depth - 1)) v)
                         \<subseteq> reach e src (nat depth) url"
              unfolding n by (simp add: linksOf_def Loaded)
            from crawl_post_trans[OF p1 p2] show ?thesis unfolding r
              by (rule crawl_post_weaken) (rule sub)
          qed
        qed
      qed
    qed
  qed
next
  case (2 e s depth src w)
  show ?case by (simp add: crawl_post_refl)
next
  case (3 e s link links depth src w)
  show ?case
  proof (cases "shuttingDown w")
    case True
    then show ?thesis by (simp add: crawl_post_refl)
  next
    case False
    obtain ms w1 where c1: "crawlPage e s link depth src w = (ms, w1)"
      by (cases "crawlPage e s link depth src w")
    obtain rest w2 where c2: "crawlLinks e s links depth src w1 = (rest, w2)"
      by (cases "crawlLinks e s links depth src w1")
    from 3(1)[OF False] c1 have p1: "crawl_post (reach e src (nat depth) link) w w1" by simp
    from 3(2)[OF False c1[symmetric]] c2
    have p2: "crawl_post (\<Union>v\<in>set links. reach e src (nat depth) v) w1 w2" by simp
    from False c1 c2 have r: "snd (crawlLinks e s (link # links) depth src w) = w2" by simp
    from crawl_post_trans[OF p1 p2] show ?thesis unfolding r
      by (rule crawl_post_weaken) auto
  qed
qed

lemma crawlPage_guard:
  "shuttingDown w \<or> depth < 0 \<or> url \<in> visitedUrls (state w) \<Longrightarrow>
     crawlPage e s url depth src w = ([], w)"
  by (simp add: crawlPage.simps)

lemma crawl_post_trace: "crawl_post R w w' \<Longrightarrow> \<exists>evs. trace w' = trace w @ evs"
  unfolding crawl_post_def by blast

lemma crawlPage_marks_first:
  assumes g1: "\<not> (shuttingDown w \<or> depth < 0 \<or> url \<in> visitedUrls (state w))"
  shows "\<exists>evs. trace (snd (crawlPage e s url depth src w)) = trace w @ AddVisited url # evs"
proof (cases "\<not> browser w \<or> shuttingDown w")
  case True
  with g1 show ?thesis by (simp add: crawlPage.simps)
next
  case g2: False
  show ?thesis
  proof (cases "render e url")
    case NewPageFails
    with g1 g2 show ?thesis by (simp add: crawlPage.simps)
  next
    case GotoFails
    with g1 g2 show ?thesis by (simp add: crawlPage.simps Let_def)
  next
    case (Loaded allUrls media links)
    let ?w2 = "navigate e url (markVisited url depth w)"
    obtain out w4 where h: "handOver s (extractMediaUrls e media url) ?w2 = (out, w4)"
      by (cases "handOver s (extractMediaUrls e media url) ?w2")
    from handOver_trace[OF h] obtain evs4 where t4: "trace w4 = trace ?w2 @ evs4" by blast
    show ?thesis
    proof (cases out)
      case None
      with g1 g2 Loaded h t4 show ?thesis by (simp add: crawlPage.simps)
    next
      case (Some mediaUrls)
      show ?thesis
      proof (cases "depth > 0")
        case False
        with g1 g2 Loaded h Some t4 show ?thesis by (simp add: crawlPage.simps)
      next
        case True
        let ?links = "extractPageLinks e links url src"
        let ?w6 = "announceLinks ?links w4"
        from announceLinks_trace[of ?links w4] obtain evs6 where
          t6: "trace ?w6 = trace w4 @ evs6" by blast
        from crawl_post_trace[OF crawl_invariant(2)[of e src "depth - 1" ?links ?w6 s]]
        obtain evs7 where
          t7: "trace (snd (crawlLinks e s ?links (depth - 1) src ?w6)) = trace ?w6 @ evs7" by blast
        from g1 g2 Loaded h Some True
        have r: "snd (crawlPage e s url depth src w) =
                   snd (crawlLinks e s ?links (depth - 1) src ?w6)"
          by (simp add: crawlPage.simps split: prod.splits)
        show ?thesis unfolding r using t4 t6 t7 by simp
      qed
    qed
  qed
qed

text \<open>
  Claim C3, as the code has it. A call of \<open>crawlPage\<close> made while the crawler is
  shutting down, or with \<open>depth < 0\<close>, or for a URL already in \<open>visitedUrls\<close>,
  returns the empty list and leaves the world as it is. Any other call inserts the URL
  into \<open>visitedUrls\<close> as its first action. Over the whole recursive call
  \<open>visitedUrls\<close> only grows; every navigation goes to a URL that was inserted earlier
  in the same call; no URL is navigated to twice, and none that was visited before the
  call; and every URL navigated to lies within \<open>depth\<close> link hops of the URL of the
  call. The function is total: the recursion ends because \<open>depth\<close> decreases.
\<close>

theorem crawlPage_visits_once_within_depth:
  "(shuttingDown w \<or> depth < 0 \<or> url \<in> visitedUrls (state w) \<longrightarrow>
      crawlPage e s url depth src w = ([], w)) \<and>
   (\<not> (shuttingDown w \<or> depth < 0 \<or> url \<in> visitedUrls (state w)) \<longrightarrow>
      url \<in> visitedUrls (state (snd (crawlPage e s url depth src w))) \<and>
      take 1 (news w (snd (crawlPage e s url depth src w))) = [AddVisited url]) \<and>
   visitedUrls (state w) \<subseteq> visitedUrls (state (snd (crawlPage e s url depth src w))) \<and>
   markedFirst {} (news w (snd (crawlPage e s url depth src w))) \<and>
   distinct (gotos (news w (snd (crawlPage e s url depth src w)))) \<and>
   set (gotos (news w (snd (crawlPage e s url depth src w)))) \<inter> visitedUrls (state w) = {} \<and>
   set (gotos (news w (snd (crawlPage e s url depth src w)))) \<subseteq> reach e src (nat depth) url"
proof -
  let ?w' = "snd (crawlPage e s url depth src w)"
  from crawl_invariant(1)[of e src depth url w s] obtain evs where
    t: "trace ?w' = trace w @ evs" and
    v: "visitedUrls (state ?w') = visitedUrls (state w) \<union> set (adds evs)" and
    d: "set (adds evs) \<inter> visitedUrls (state w) = {}" and
    g: "distinct (gotos evs)" and m: "markedFirst {} evs" and
    r: "set (gotos evs) \<subseteq> reach e src (nat depth) url"
    unfolding crawl_post_def by blast
  from t have n: "news w ?w' = evs" by simp
  from markedFirst_gotos[OF m] have ga: "set (gotos evs) \<subseteq> set (adds evs)" by simp
  have 1: "shuttingDown w \<or> depth < 0 \<or> url \<in> visitedUrls (state w) \<longrightarrow>
      crawlPage e s url depth src w = ([], w)"
    by (simp add: crawlPage_guard)
  have 2: "\<not> (shuttingDown w \<or> depth < 0 \<or> url \<in> visitedUrls (state w)) \<longrightarrow>
      url \<in> visitedUrls (state ?w') \<and> take 1 (news w ?w') = [AddVisited url]"
  proof
    assume a: "\<not> (shuttingDown w \<or> depth < 0 \<or> url \<in> visitedUrls (state w))"
    from crawlPage_marks_first[OF a, of e s src] obtain evs' where
      "trace ?w' = trace w @ AddVisited url # evs'" by blast
    with t have "evs = AddVisited url # evs'" by simp
    with v n show "url \<in> visitedUrls (state ?w') \<and> take 1 (news w ?w') = [AddVisited url]"
      by simp
  qed
  have 3: "visitedUrls (state w) \<subseteq> visitedUrls (state ?w')" using v by auto
  have 6: "set (gotos (news w ?w')) \<inter> visitedUrls (state w) = {}"
    unfolding n using ga d by auto
  from 1 2 3 m g 6 r show ?thesis unfolding n by blast
qed

lemma observe_eq:
  "observe e url A rawUrl =
     A \<union> (getDomain e ` set (filter (isMediaUrl e)
              (List.map_filter (\<lambda>rawUrl. normalized e rawUrl url) [rawUrl])) - {[]})"
  by (cases "normalized e rawUrl url") (auto simp: observe_def List.map_filter_simps)

lemma map_filter_Cons_append:
  "List.map_filter f (x # xs) = List.map_filter f [x] @ List.map_filter f xs"
  by (cases "f x") (simp_all add: List.map_filter_simps)

lemma foldl_observe:
  "foldl (observe e url) A allUrls =
     A \<union> (getDomain e ` set (filter (isMediaUrl e)
                  (List.map_filter (\<lambda>rawUrl. normalized e rawUrl url) allUrls)) - {[]})"
proof (induction allUrls arbitrary: A)
  case Nil
  show ?case by (simp add: List.map_filter_simps)
next
  case (Cons rawUrl allUrls)
  have "foldl (observe e url) A (rawUrl # allUrls) =
          foldl (observe e url) (observe e url A rawUrl) allUrls" by simp
  also have "\<dots> = observe e url A rawUrl \<union>
      (getDomain e ` set (filter (isMediaUrl e)
         (List.map_filter (\<lambda>rawUrl. normalized e rawUrl url) allUrls)) - {[]})"
    by (rule Cons)
  also have "\<dots> = A \<union> (getDomain e ` set (filter (isMediaUrl e)
         (List.map_filter (\<lambda>rawUrl. normalized e rawUrl url) (rawUrl # allUrls))) - {[]})"
    unfolding observe_eq map_filter_Cons_append[of _ rawUrl allUrls] by auto
  finally show ?case .
qed

text \<open>
  Claim C6. \<open>discoverAllowedDomains\<close> returns a set whenever the browser is there and
  a page can be opened (otherwise it throws). The returned set contains the host of the
  seed URL; every other member is the host of a media URL found among the \<open>src\<close> and
  \<open>href\<close> values of the seed page and contains one of the substrings \<open>cdn\<close>,
  \<open>cloudinary\<close>, \<open>imgix\<close>, \<open>images\<close>, \<open>static\<close>, \<open>squarespace\<close>; when no
  host but the seed host is observed, the set is the singleton of the seed host. The URL
  utilities are taken to be total: they return and do not throw.
\<close>

theorem discoverAllowedDomains_members:
  "(browser w \<and> render e url \<noteq> NewPageFails \<longrightarrow>
      (\<exists>D w'. discoverAllowedDomains e url w = Inr (D, w'))) \<and>
   (\<forall>D w'. discoverAllowedDomains e url w = Inr (D, w') \<longrightarrow>
      getDomain e url \<in> D \<and>
      (\<forall>d. d \<in> D \<and> d \<noteq> getDomain e url \<longrightarrow> d \<in> observedHosts e url \<and> recognized d) \<and>
      (observedHosts e url \<subseteq> {getDomain e url} \<longrightarrow> D = {getDomain e url}))"
proof (intro conjI allI impI)
  assume "browser w \<and> render e url \<noteq> NewPageFails"
  then show "\<exists>D w'. discoverAllowedDomains e url w = Inr (D, w')"
    by (cases "render e url") (auto simp: discoverAllowedDomains_def Let_def)
next
  fix D w' assume a: "discoverAllowedDomains e url w = Inr (D, w')"
  have D: "D = insert (getDomain e url)
                 {d \<in> observedHosts e url. d \<noteq> [] \<and> recognized d}"
  proof (cases "render e url")
    case NewPageFails
    with a show ?thesis by (auto simp: discoverAllowedDomains_def Let_def split: if_splits)
  next
    case GotoFails
    with a show ?thesis
      by (auto simp: discoverAllowedDomains_def Let_def observedHosts_def split: if_splits)
  next
    case (Loaded allUrls media links)
    with a have "D = insert (getDomain e url)
        (Set.filter (\<lambda>domain. domain = getDomain e url \<or> recognized domain)
           (foldl (observe e url) {getDomain e url} allUrls))"
      by (auto simp: discoverAllowedDomains_def Let_def split: if_splits)
    then show ?thesis
      unfolding foldl_observe observedHosts_def Loaded by auto
  qed
  show "getDomain e url \<in> D" unfolding D by simp
  show "d \<in> observedHosts e url" if "d \<in> D \<and> d \<noteq> getDomain e url" for d
    using that unfolding D by blast
  show "recognized d" if "d \<in> D \<and> d \<noteq> getDomain e url" for d
    using that unfolding D by blast
  show "D = {getDomain e url}" if "observedHosts e url \<subseteq> {getDomain e url}"
    using that unfolding D by auto
qed

theorem crawlPage_visits_once_within_depth_witness:
  "\<not> (shuttingDown ex_world \<or> (1::int) < 0 \<or> ''http://a.com/'' \<in> visitedUrls (state ex_world)) \<and>
   ''http://a.com/'' \<in>
      visitedUrls (state (snd (crawlPage ex_env False ''http://a.com/'' 1 ''a.com'' ex_world))) \<and>
   gotos (news ex_world (snd (crawlPage ex_env False ''http://a.com/'' 1 ''a.com'' ex_world)))
     = [''http://a.com/'', ''http://a.com/about''] \<and>
   distinct (gotos (news ex_world
      (snd (crawlPage ex_env False ''http://a.com/'' 1 ''a.com'' ex_world)))) \<and>
   crawlPage ex_env False ''http://a.com/'' (- 1) ''a.com'' ex_world = ([], ex_world)"
proof -
  have g: "\<not> (shuttingDown ex_world \<or> (1::int) < 0 \<or>
               ''http://a.com/'' \<in> visitedUrls (state ex_world))"
    by code_simp
  have s: "gotos (news ex_world (snd (crawlPage ex_env False ''http://a.com/'' 1 ''a.com'' ex_world)))
     = [''http://a.com/'', ''http://a.com/about'']"
    by code_simp
  note T1 = crawlPage_visits_once_within_depth[of ex_world 1 "''http://a.com/''" ex_env False
      "''a.com''"]
  note T2 = crawlPage_visits_once_within_depth[of ex_world "- 1" "''http://a.com/''" ex_env False
      "''a.com''"]
  from T1 g have "''http://a.com/'' \<in>
      visitedUrls (state (snd (crawlPage ex_env False ''http://a.com/'' 1 ''a.com'' ex_world)))"
    by blast
  moreover from T1 have "distinct (gotos (news ex_world
      (snd (crawlPage ex_env False ''http://a.com/'' 1 ''a.com'' ex_world))))"
    by blast
  moreover from T2 have
    "crawlPage ex_env False ''http://a.com/'' (- 1) ''a.com'' ex_world = ([], ex_world)"
    by simp
  ultimately show ?thesis using g s by blast
qed

text \<open>
  The claim as stated promises that a call with \<open>depth \<ge> 0\<close> for a URL not yet in
  \<open>visitedUrls\<close> inserts the URL. A call made during shutdown does not.
\<close>

theorem shutdown_crawl_does_not_mark:
  "\<not> ((0::int) < 0) \<and>
   ''http://a.com/'' \<notin> visitedUrls (state (ex_world\<lparr>shuttingDown := True\<rparr>)) \<and>
   ''http://a.com/'' \<notin> visitedUrls (state (snd
      (crawlPage ex_env False ''http://a.com/'' 0 ''a.com'' (ex_world\<lparr>shuttingDown := True\<rparr>))))"
  by code_simp


theorem discoverAllowedDomains_members_witness:
  "browser ex_world \<and> render ex_env ''http://a.com/'' \<noteq> NewPageFails \<and>
   discoverAllowedDomains ex_env ''http://a.com/'' ex_world =
     Inr ({''a.com'', ''img.cdn.net''}, snd (projr (discoverAllowedDomains ex_env ''http://a.com/'' ex_world))) \<and>
   ''img.cdn.net'' \<in> observedHosts ex_env ''http://a.com/'' \<and> recognized ''img.cdn.net'' \<and>
   ''ads.tracker.com'' \<in> observedHosts ex_env ''http://a.com/''"
proof -
  let ?r = "discoverAllowedDomains ex_env ''http://a.com/'' ex_world"
  have b: "browser ex_world \<and> render ex_env ''http://a.com/'' \<noteq> NewPageFails" by code_simp
  have r: "?r = Inr ({''a.com'', ''img.cdn.net''}, snd (projr ?r))" by code_simp
  have o: "''ads.tracker.com'' \<in> observedHosts ex_env ''http://a.com/''" by code_simp
  have d: "''img.cdn.net'' \<noteq> getDomain ex_env ''http://a.com/''" by code_simp
  note T = discoverAllowedDomains_members[of ex_world ex_env "''http://a.com/''"]
  from T r d have "''img.cdn.net'' \<in> observedHosts ex_env ''http://a.com/'' \<and>
                   recognized ''img.cdn.net''"
    by blast
  with b r o show ?thesis by blast
qed

section \<open>Sorting and grouping\<close>



lemma set_insert_by [simp]: "set (insert_by cmp x xs) = insert x (set xs)"
  by (induction xs) auto

lemma length_insert_by [simp]: "length (insert_by cmp x xs) = Suc (length xs)"
  by (induction xs) auto

lemma distinct_map_insert_by [simp]:
  "distinct (map f (insert_by cmp x xs)) \<longleftrightarrow> f x \<notin> f ` set xs \<and> distinct (map f xs)"
  by (induction xs) auto

lemma sort_by_Nil [simp]: "sort_by cmp [] = []"
  by (simp add: sort_by_def)

lemma sort_by_Cons [simp]: "sort_by cmp (x # xs) = insert_by cmp x (sort_by cmp xs)"
  by (simp add: sort_by_def)

lemma set_sort_by [simp]: "set (sort_by cmp xs) = set xs"
  by (induction xs) simp_all

lemma length_sort_by [simp]: "length (sort_by cmp xs) = length xs"
  by (induction xs) simp_all

lemma distinct_map_sort_by [simp]: "distinct (map f (sort_by cmp xs)) = distinct (map f xs)"
  by (induction xs) simp_all

lemma sorted_insert_by:
  assumes "preorder cmp" "sorted_wrt (\<lambda>a b. cmp a b \<le> 0) xs"
  shows "sorted_wrt (\<lambda>a b. cmp a b \<le> 0) (insert_by cmp x xs)"
  using assms(2)
proof (induction xs)
  case Nil
  show ?case by simp
next
  case (Cons y ys)
  from assms(1) have tot: "cmp x y \<le> 0 \<or> cmp y x \<le> 0"
    and tr: "\<And>a b c. cmp a b \<le> 0 \<Longrightarrow> cmp b c \<le> 0 \<Longrightarrow> cmp a c \<le> 0"
    unfolding preorder_def by blast+
  show ?case
  proof (cases "cmp x y \<le> 0")
    case True
    with Cons(2) tr show ?thesis by auto
  next
    case False
    with tot have "cmp y x \<le> 0" by simp
    with False Cons show ?thesis by auto
  qed
qed

lemma sorted_sort_by:
  "preorder cmp \<Longrightarrow> sorted_wrt (\<lambda>a b. cmp a b \<le> 0) (sort_by cmp xs)"
  by (induction xs) (simp_all add: sorted_insert_by)

lemma hd_sort_by_best:
  assumes "preorder cmp" "y \<in> set xs"
  shows "cmp (hd (sort_by cmp xs)) y \<le> 0"
proof -
  from assms(2) have "y \<in> set (sort_by cmp xs)" by simp
  moreover have s: "sorted_wrt (\<lambda>a b. cmp a b \<le> 0) (sort_by cmp xs)"
    by (rule sorted_sort_by[OF assms(1)])
  moreover from assms(1) have "cmp y y \<le> 0" unfolding preorder_def by blast
  ultimately show ?thesis by (cases "sort_by cmp xs") auto
qed

lemma sort_by_nonempty: "xs \<noteq> [] \<Longrightarrow> sort_by cmp xs \<noteq> []"
  by (metis length_sort_by length_0_conv)

lemma hd_sort_by_in: "xs \<noteq> [] \<Longrightarrow> hd (sort_by cmp xs) \<in> set xs"
proof -
  assume "xs \<noteq> []"
  then have "hd (sort_by cmp xs) \<in> set (sort_by cmp xs)"
    by (intro hd_in_set sort_by_nonempty)
  then show ?thesis unfolding set_sort_by .
qed

lemma sort_by_split:
  "xs \<noteq> [] \<Longrightarrow> sort_by cmp xs = hd (sort_by cmp xs) # tl (sort_by cmp xs)"
  by (metis length_sort_by length_0_conv list.collapse)

lemma preorder_byQuality: "preorder byQuality"
  unfolding preorder_def byQuality_def by (auto split: if_splits)

lemma preorder_byQualityH: "preorder byQualityH"
  unfolding preorder_def byQualityH_def by (auto split: if_splits)

lemma preorder_qualityOrder: "preorder qualityOrder"
  unfolding preorder_def qualityOrder_def by (auto split: if_splits)

lemma preorder_byNameLength: "preorder byNameLength"
  unfolding preorder_def byNameLength_def by auto

lemma preorder_nameLengthOrder: "preorder nameLengthOrder"
  unfolding preorder_def nameLengthOrder_def by auto

lemma set_members: "set (members gs) = (\<Union>(k, g) \<in> set gs. set g)"
  by (induction gs) auto

lemma members_group_insert_set [simp]:
  "set (members (group_insert k x gs)) = insert x (set (members gs))"
  by (induction k x gs rule: group_insert.induct) auto

lemma members_group_insert_distinct [simp]:
  "distinct (map f (members (group_insert k x gs))) \<longleftrightarrow>
     f x \<notin> f ` set (members gs) \<and> distinct (map f (members gs))"
  by (induction k x gs rule: group_insert.induct) auto

lemma groupBy_snoc:
  "groupBy key (xs @ [x]) =
     (if truthy (key x) then group_insert (the (key x)) x (groupBy key xs) else groupBy key xs)"
  by (simp add: groupBy_def)

lemma groupBy_Nil [simp]: "groupBy key [] = []"
  by (simp add: groupBy_def)

lemma set_groupBy: "set (members (groupBy key xs)) = {x \<in> set xs. truthy (key x)}"
  by (induction xs rule: rev_induct) (auto simp: groupBy_snoc)

lemma distinct_groupBy:
  "distinct (map f xs) \<Longrightarrow> distinct (map f (members (groupBy key xs)))"
proof (induction xs rule: rev_induct)
  case Nil
  show ?case by simp
next
  case (snoc x xs)
  then have d: "distinct (map f xs)" and n: "f x \<notin> f ` set xs" by auto
  from n have "f x \<notin> f ` set (members (groupBy key xs))"
    unfolding set_groupBy by auto
  with snoc(1)[OF d] show ?case by (simp add: groupBy_snoc)
qed

lemma keyed_group_insert:
  "keyed key gs \<Longrightarrow> key x = Some k \<Longrightarrow> keyed key (group_insert k x gs)"
proof (induction k x gs rule: group_insert.induct)
  case (1 k x)
  then show ?case by (simp add: keyed_def)
next
  case (2 k x k' xs groups)
  from 2(2) have h: "xs \<noteq> []" "\<forall>y \<in> set xs. key y = Some k'" and t: "keyed key groups"
    unfolding keyed_def by auto
  show ?case
  proof (cases "k' = k")
    case True
    with h t 2(3) show ?thesis unfolding keyed_def by auto
  next
    case False
    from 2(1)[OF False t 2(3)] have "keyed key (group_insert k x groups)" .
    with False h show ?thesis unfolding keyed_def by auto
  qed
qed

lemma keyed_groupBy: "keyed key (groupBy key xs)"
proof (induction xs rule: rev_induct)
  case Nil
  show ?case by (simp add: keyed_def)
next
  case (snoc x xs)
  show ?case
  proof (cases "truthy (key x)")
    case False
    with snoc show ?thesis by (simp add: groupBy_snoc)
  next
    case True
    then have "key x = Some (the (key x))" by (cases "key x") (simp_all add: truthy_def)
    from keyed_group_insert[OF snoc this] True show ?thesis by (simp add: groupBy_snoc)
  qed
qed

lemma fst_group_insert: "fst ` set (group_insert k x gs) = insert k (fst ` set gs)"
  by (induction k x gs rule: group_insert.induct) auto

lemma distinct_keys_group_insert:
  "distinct (map fst gs) \<Longrightarrow> distinct (map fst (group_insert k x gs))"
proof (induction k x gs rule: group_insert.induct)
  case (1 k x)
  show ?case by simp
next
  case (2 k x k' xs groups)
  show ?case
  proof (cases "k' = k")
    case True
    with 2(2) show ?thesis by simp
  next
    case False
    from 2(2) have "distinct (map fst groups)" "k' \<notin> fst ` set groups" by auto
    with 2(1)[OF False] False show ?thesis by (simp add: fst_group_insert)
  qed
qed

lemma distinct_keys_groupBy: "distinct (map fst (groupBy key xs))"
  by (induction xs rule: rev_induct) (simp_all add: groupBy_snoc distinct_keys_group_insert)

section \<open>File removal by groups\<close>

lemma fs_remove_empty [simp]: "fs_remove {} fs = fs"
  by (simp add: fs_remove_def)

lemma fs_remove_remove [simp]: "fs_remove D (fs_remove D' fs) = fs_remove (D' \<union> D) fs"
  by (induction fs) (auto simp: fs_remove_def)

lemma fs_unlink_remove: "fs_unlink p fs = fs_remove {p} fs"
  by (simp add: fs_unlink_def fs_remove_def)

lemma fs_lookup_remove [simp]:
  "fs_lookup (fs_remove D fs) q = (if q \<in> D then None else fs_lookup fs q)"
  by (induction fs) (auto simp: fs_remove_def fs_lookup_def)

lemma fs_remove_absent: "fs_lookup fs p = None \<Longrightarrow> fs_remove {p} fs = fs"
proof -
  assume "fs_lookup fs p = None"
  then have "p \<notin> fst ` set fs" by (simp add: fs_lookup_def map_of_eq_None_iff)
  then show ?thesis by (induction fs) (auto simp: fs_remove_def)
qed

lemma removal_refl: "removal {} w w"
  by (simp add: removal_def)

lemma removal_trans: "removal D w w1 \<Longrightarrow> removal D' w1 w2 \<Longrightarrow> removal (D \<union> D') w w2"
  by (simp add: removal_def)

lemma removal_log: "removal D w w' \<Longrightarrow> removal D w (logger l m w')"
  by (simp add: removal_def)

lemma removal_log_before: "removal D (logger l m w) w' \<Longrightarrow> removal D w w'"
  by (simp add: removal_def)

lemma tryUnlink_removal: "removal {p} w (snd (tryUnlink p line w))"
  by (cases "fs_lookup (files w) p")
     (simp_all add: tryUnlink_def removal_def fs_unlink_remove fs_remove_absent)

lemma removeRest_removal: "removal (fst ` set items) w (snd (removeRest items removed w))"
proof (induction items arbitrary: removed w)
  case Nil
  show ?case by (simp add: removal_refl)
next
  case (Cons item items)
  obtain p line where item: "item = (p, line)" by (cases item)
  obtain ok w1 where t: "tryUnlink p line w = (ok, w1)" by (cases "tryUnlink p line w")
  from tryUnlink_removal[of p w line] t have r1: "removal {p} w w1" by simp
  have r2: "removal (fst ` set items) w1 (snd (removeRest items r w1))" for r by (rule Cons)
  have "snd (removeRest (item # items) removed w) =
          snd (removeRest items (if ok then removed + 1 else removed) w1)"
    using t by (cases ok) (simp_all add: item)
  moreover have "removal ({p} \<union> fst ` set items) w
                   (snd (removeRest items (if ok then removed + 1 else removed) w1))"
    by (rule removal_trans[OF r1 r2])
  ultimately show ?case by (simp add: item)
qed

lemma removeAllButBest_removal:
  "removal (pathOf ` set (victims cmp grp)) w
     (snd (removeAllButBest cmp pathOf keepLine removeLine grp removed w))"
proof (cases "length grp < 2")
  case True
  then show ?thesis by (simp add: removeAllButBest_def victims_def removal_refl)
next
  case False
  let ?items = "map (\<lambda>i. (pathOf i, removeLine i)) (tl (sort_by cmp grp))"
  have "fst ` set ?items = pathOf ` set (tl (sort_by cmp grp))" by force
  with removeRest_removal[of ?items "logger Debug (keepLine (hd (sort_by cmp grp))) w" removed]
  have "removal (pathOf ` set (tl (sort_by cmp grp)))
          (logger Debug (keepLine (hd (sort_by cmp grp))) w)
          (snd (removeRest ?items removed (logger Debug (keepLine (hd (sort_by cmp grp))) w)))"
    by simp
  then have "removal (pathOf ` set (tl (sort_by cmp grp))) w
          (snd (removeRest ?items removed (logger Debug (keepLine (hd (sort_by cmp grp))) w)))"
    by (rule removal_log_before)
  with False show ?thesis by (simp add: removeAllButBest_def victims_def)
qed

lemma removeGroups_removal:
  "removal (path ` (\<Union>g \<in> set (map snd groups). set (victims cmp g))) w
     (snd (removeGroups cmp keeping removing groups removed w))"
proof (induction groups arbitrary: removed w)
  case Nil
  show ?case by (simp add: removal_refl)
next
  case (Cons kg groups)
  obtain key grp where kg: "kg = (key, grp)" by (cases kg)
  obtain r1 w1 where a: "removeAllButBest cmp path (\<lambda>i. [S keeping, S (filename i)])
             (\<lambda>i. [S removing, S (filename i)]) grp removed w = (r1, w1)"
    by (cases "removeAllButBest cmp path (\<lambda>i. [S keeping, S (filename i)])
             (\<lambda>i. [S removing, S (filename i)]) grp removed w")
  from removeAllButBest_removal[of path cmp grp w "\<lambda>i. [S keeping, S (filename i)]"
      "\<lambda>i. [S removing, S (filename i)]" removed] a
  have p1: "removal (path ` set (victims cmp grp)) w w1" by simp
  have p2: "removal (path ` (\<Union>g \<in> set (map snd groups). set (victims cmp g))) w1
              (snd (removeGroups cmp keeping removing groups r1 w1))" by (rule Cons)
  have "path ` set (victims cmp grp) \<union> path ` (\<Union>g \<in> set (map snd groups). set (victims cmp g))
        = path ` (\<Union>g \<in> set (map snd (kg # groups)). set (victims cmp g))"
    by (auto simp: kg)
  with removal_trans[OF p1 p2] a show ?case by (simp add: kg)
qed

text \<open>Groups with distinct paths: the first of a sorted group is no victim of any group.\<close>

lemma disjoint_groups:
  "distinct (map f (concat gs)) \<Longrightarrow> g \<in> set gs \<Longrightarrow> g' \<in> set gs \<Longrightarrow> g \<noteq> g' \<Longrightarrow>
     f ` set g \<inter> f ` set g' = {}"
proof (induction gs)
  case Nil
  then show ?case by simp
next
  case (Cons a gs)
  from Cons(2) have d: "distinct (map f (concat gs))"
    and x: "f ` set a \<inter> f ` set (concat gs) = {}" by auto
  show ?case
  proof (cases "g = a")
    case True
    with Cons(4,5) have "g' \<in> set gs" by auto
    then have "set g' \<subseteq> set (concat gs)" by auto
    with x True show ?thesis by blast
  next
    case ga: False
    with Cons(3) have g: "g \<in> set gs" by simp
    show ?thesis
    proof (cases "g' = a")
      case True
      from g have "set g \<subseteq> set (concat gs)" by auto
      with x True show ?thesis by blast
    next
      case False
      with Cons(4) have "g' \<in> set gs" by simp
      from Cons(1)[OF d g this Cons(5)] show ?thesis .
    qed
  qed
qed

lemma set_tl_sort_by: "xs \<noteq> [] \<Longrightarrow> set xs = insert (hd (sort_by cmp xs)) (set (tl (sort_by cmp xs)))"
proof -
  assume "xs \<noteq> []"
  then have "sort_by cmp xs \<noteq> []" by (rule sort_by_nonempty)
  then obtain h t where ht: "sort_by cmp xs = h # t" by (cases "sort_by cmp xs") auto
  have "set xs = set (sort_by cmp xs)" by simp
  also have "\<dots> = insert h (set t)" unfolding ht by simp
  finally show ?thesis unfolding ht by simp
qed

lemma hd_not_in_tl_sort_by:
  assumes "xs \<noteq> []" "distinct (map f xs)"
  shows "f (hd (sort_by cmp xs)) \<notin> f ` set (tl (sort_by cmp xs))"
proof -
  from assms(1) have "sort_by cmp xs \<noteq> []" by (rule sort_by_nonempty)
  then obtain h t where ht: "sort_by cmp xs = h # t" by (cases "sort_by cmp xs") auto
  from assms(2) have "distinct (map f (sort_by cmp xs))" by simp
  then show ?thesis unfolding ht by simp
qed

lemma victims_subset: "set (victims cmp g) \<subseteq> set g"
proof (cases "length g < 2")
  case True
  then show ?thesis by (simp add: victims_def)
next
  case False
  then have "g \<noteq> []" by auto
  from set_tl_sort_by[OF this, of cmp] have "set (tl (sort_by cmp g)) \<subseteq> set g" by auto
  with False show ?thesis by (simp add: victims_def)
qed

lemma distinct_member:
  "distinct (map f (concat gs)) \<Longrightarrow> g \<in> set gs \<Longrightarrow> distinct (map f g)"
  by (induction gs) auto

lemma survivor_safe:
  assumes d: "distinct (map f (concat gs))" and g: "g \<in> set gs" and l: "2 \<le> length g"
  shows "f (hd (sort_by cmp g)) \<notin> f ` (\<Union>g' \<in> set gs. set (victims cmp g'))"
proof
  assume "f (hd (sort_by cmp g)) \<in> f ` (\<Union>g' \<in> set gs. set (victims cmp g'))"
  then obtain g' v where g': "g' \<in> set gs" and v: "v \<in> set (victims cmp g')"
    and e: "f (hd (sort_by cmp g)) = f v" by auto
  from l have ne: "g \<noteq> []" by auto
  have hg: "hd (sort_by cmp g) \<in> set g" by (rule hd_sort_by_in[OF ne])
  from v victims_subset[of cmp g'] have vg: "v \<in> set g'" by auto
  show False
  proof (cases "g = g'")
    case False
    from disjoint_groups[OF d g g' False] have "f ` set g \<inter> f ` set g' = {}" .
    moreover from hg have "f (hd (sort_by cmp g)) \<in> f ` set g" by simp
    moreover from vg e have "f (hd (sort_by cmp g)) \<in> f ` set g'" by simp
    ultimately show False by blast
  next
    case True
    from distinct_member[OF d g] have dg: "distinct (map f g)" .
    from l True v have vt: "v \<in> set (tl (sort_by cmp g))" by (simp add: victims_def)
    from hd_not_in_tl_sort_by[OF ne dg, of cmp] vt e show False by auto
  qed
qed

lemma others_victims:
  assumes l: "2 \<le> length g" and i: "i \<in> set g" and n: "i \<noteq> hd (sort_by cmp g)"
  shows "i \<in> set (victims cmp g)"
proof -
  from l have ne: "g \<noteq> []" by auto
  from set_tl_sort_by[OF ne, of cmp] i n have "i \<in> set (tl (sort_by cmp g))" by auto
  with l show ?thesis by (simp add: victims_def)
qed

text \<open>What a pass leaves of a group of two or more, when all paths are distinct.\<close>

lemma group_outcome:
  assumes r: "removal (f ` (\<Union>g' \<in> set gs. set (victims cmp g'))) w w'"
    and d: "distinct (map f (concat gs))" and g: "g \<in> set gs" and l: "2 \<le> length g"
  shows "hd (sort_by cmp g) \<in> set g \<and>
         fs_lookup (files w') (f (hd (sort_by cmp g))) = fs_lookup (files w) (f (hd (sort_by cmp g))) \<and>
         (\<forall>i \<in> set g. i \<noteq> hd (sort_by cmp g) \<longrightarrow> fs_lookup (files w') (f i) = None)"
proof (intro conjI ballI impI)
  from l have ne: "g \<noteq> []" by auto
  show "hd (sort_by cmp g) \<in> set g" by (rule hd_sort_by_in[OF ne])
  from r have fw: "files w' = fs_remove (f ` (\<Union>g' \<in> set gs. set (victims cmp g'))) (files w)"
    by (simp add: removal_def)
  from survivor_safe[OF d g l, of cmp]
  show "fs_lookup (files w') (f (hd (sort_by cmp g))) = fs_lookup (files w) (f (hd (sort_by cmp g)))"
    unfolding fw by simp
  fix i assume "i \<in> set g" "i \<noteq> hd (sort_by cmp g)"
  from others_victims[OF l this] g have "f i \<in> f ` (\<Union>g' \<in> set gs. set (victims cmp g'))"
    by blast
  then show "fs_lookup (files w') (f i) = None" unfolding fw by simp
qed

section \<open>The clusters of the visual phase\<close>

lemma collect_joiners:
  "collect e imageInfos i j grp used =
     (grp @ map (\<lambda>k. imageInfos ! k) (joiners e imageInfos i j used),
      used \<union> set (joiners e imageInfos i j used))"
proof (induction e imageInfos i j grp used rule: collect.induct)
  case (1 e imageInfos i j grp used)
  show ?case
  proof (cases "j < length imageInfos")
    case False
    then show ?thesis by (simp add: collect.simps joiners_def)
  next
    case True
    then have up: "[j ..< length imageInfos] = j # [Suc j ..< length imageInfos]"
      by (simp add: upt_conv_Cons)
    show ?thesis
    proof (cases "j \<in> used")
      case u: True
      have "joiners e imageInfos i j used = joiners e imageInfos i (Suc j) used"
        unfolding joiners_def up using u by simp
      with 1(1)[OF True u] True u show ?thesis by (simp add: collect.simps)
    next
      case u: False
      show ?thesis
      proof (cases "areVisuallySimular e (h_hash (imageInfos ! i)) (h_hash (imageInfos ! j))")
        case s: True
        have f: "filter (\<lambda>k. k \<notin> insert j used \<and>
                 areVisuallySimular e (h_hash (imageInfos ! i)) (h_hash (imageInfos ! k)))
                 [Suc j ..< length imageInfos] =
              filter (\<lambda>k. k \<notin> used \<and>
                 areVisuallySimular e (h_hash (imageInfos ! i)) (h_hash (imageInfos ! k)))
                 [Suc j ..< length imageInfos]"
          by (rule filter_cong) auto
        have j1: "joiners e imageInfos i j used = j # joiners e imageInfos i (Suc j) (insert j used)"
          unfolding joiners_def up using u s f by simp
        from 1(2)[OF True u s] True u s show ?thesis
          by (simp add: collect.simps j1)
      next
        case s: False
        have "joiners e imageInfos i j used = joiners e imageInfos i (Suc j) used"
          unfolding joiners_def up using s by simp
        with 1(3)[OF True u s] True u s show ?thesis by (simp add: collect.simps)
      qed
    qed
  qed
qed

lemma removeCluster_removal:
  "removal (h_path ` set (victims byQualityH grp)) w (snd (removeCluster grp removed w))"
  unfolding removeCluster_def by (rule removeAllButBest_removal)

lemma visualLoop_removal:
  "removal (h_path ` (\<Union>g \<in> set (clustersFrom e imageInfos i used). set (victims byQualityH g))) w
     (snd (visualLoop e imageInfos i used removed w))"
proof (induction e imageInfos i used removed w rule: visualLoop.induct)
  case (1 e imageInfos i used removed w)
  show ?case
  proof (cases "i < length imageInfos")
    case False
    then show ?thesis by (simp add: visualLoop.simps clustersFrom.simps removal_refl)
  next
    case True
    show ?thesis
    proof (cases "i \<in> used")
      case u: True
      from 1(1)[OF True u] True u show ?thesis
        by (simp add: visualLoop.simps clustersFrom.simps)
    next
      case u: False
      obtain grp used' where c: "collect e imageInfos i (Suc i) [imageInfos ! i] (insert i used)
                                  = (grp, used')"
        by (cases "collect e imageInfos i (Suc i) [imageInfos ! i] (insert i used)")
      obtain r1 w1 where rc: "removeCluster grp removed w = (r1, w1)"
        by (cases "removeCluster grp removed w")
      from removeCluster_removal[of grp w removed] rc
      have p1: "removal (h_path ` set (victims byQualityH grp)) w w1" by simp
      from 1(2)[OF True u c[symmetric] rc[symmetric]]
      have p2: "removal (h_path ` (\<Union>g \<in> set (clustersFrom e imageInfos (Suc i) used').
                   set (victims byQualityH g))) w1
                  (snd (visualLoop e imageInfos (Suc i) used' r1 w1))" .
      have cl: "clustersFrom e imageInfos i used = grp # clustersFrom e imageInfos (Suc i) used'"
        using True u c by (subst clustersFrom.simps) simp
      have vl: "visualLoop e imageInfos i used removed w = visualLoop e imageInfos (Suc i) used' r1 w1"
        using True u c rc by (subst visualLoop.simps) simp
      have "h_path ` set (victims byQualityH grp) \<union>
              h_path ` (\<Union>g \<in> set (clustersFrom e imageInfos (Suc i) used'). set (victims byQualityH g))
            = h_path ` (\<Union>g \<in> set (clustersFrom e imageInfos i used). set (victims byQualityH g))"
        unfolding cl by auto
      with removal_trans[OF p1 p2] show ?thesis unfolding vl by simp
    qed
  qed
qed

text \<open>The clusters are made of distinct entries of the array, none of them used before.\<close>

lemma clustersFrom_indices:
  "\<exists>ks. concat (clustersFrom e imageInfos i used) = map (\<lambda>k. imageInfos ! k) ks \<and>
        distinct ks \<and> set ks \<subseteq> {i ..< length imageInfos} - used"
proof (induction e imageInfos i used rule: clustersFrom.induct)
  case (1 e imageInfos i used)
  show ?case
  proof (cases "i < length imageInfos")
    case False
    then show ?thesis by (simp add: clustersFrom.simps)
  next
    case True
    show ?thesis
    proof (cases "i \<in> used")
      case u: True
      from 1(1)[OF True u] obtain ks where
        "concat (clustersFrom e imageInfos (Suc i) used) = map (\<lambda>k. imageInfos ! k) ks"
        "distinct ks" "set ks \<subseteq> {Suc i ..< length imageInfos} - used" by blast
      moreover have "clustersFrom e imageInfos i used = clustersFrom e imageInfos (Suc i) used"
        using True u by (subst clustersFrom.simps) simp
      ultimately show ?thesis by (intro exI[of _ ks]) auto
    next
      case u: False
      let ?js = "joiners e imageInfos i (Suc i) (insert i used)"
      let ?used' = "insert i used \<union> set ?js"
      have c: "collect e imageInfos i (Suc i) [imageInfos ! i] (insert i used)
                 = (imageInfos ! i # map (\<lambda>k. imageInfos ! k) ?js, ?used')"
        by (simp add: collect_joiners)
      from 1(2)[OF True u c[symmetric]] obtain ks where
        k1: "concat (clustersFrom e imageInfos (Suc i) ?used') = map (\<lambda>k. imageInfos ! k) ks"
        and k2: "distinct ks" and k3: "set ks \<subseteq> {Suc i ..< length imageInfos} - ?used'" by blast
      have cl: "clustersFrom e imageInfos i used =
                  (imageInfos ! i # map (\<lambda>k. imageInfos ! k) ?js) #
                  clustersFrom e imageInfos (Suc i) ?used'"
        using True u c by (subst clustersFrom.simps) simp
      have j1: "distinct ?js" by (simp add: joiners_def)
      have j2: "set ?js \<subseteq> {Suc i ..< length imageInfos} - insert i used"
        by (auto simp: joiners_def)
      show ?thesis
        apply (rule exI[of _ "i # ?js @ ks"])
        unfolding cl using k1 k2 k3 j1 j2 True u by auto
    qed
  qed
qed

lemma clustersFrom_distinct:
  assumes "distinct (map h_path imageInfos)"
  shows "distinct (map h_path (concat (clustersFrom e imageInfos i used)))"
proof -
  from clustersFrom_indices[of e imageInfos i used] obtain ks where
    c: "concat (clustersFrom e imageInfos i used) = map (\<lambda>k. imageInfos ! k) ks"
    and d: "distinct ks" and s: "set ks \<subseteq> {i ..< length imageInfos} - used" by blast
  have "inj_on (\<lambda>k. h_path (imageInfos ! k)) (set ks)"
  proof (rule inj_onI)
    fix a b assume a: "a \<in> set ks" and b: "b \<in> set ks"
      and e: "h_path (imageInfos ! a) = h_path (imageInfos ! b)"
    from a b s have "a < length imageInfos" "b < length imageInfos" by auto
    with e assms show "a = b"
      by (metis (no_types, lifting) length_map nth_eq_iff_index_eq nth_map)
  qed
  with d have "distinct (map (\<lambda>k. h_path (imageInfos ! k)) ks)" by (simp add: distinct_map)
  then show ?thesis unfolding c by (simp add: comp_def)
qed

section \<open>The scanner's deletion loop\<close>

lemma handleDuplicate_post:
  "removal (if dry then {} else {filepath dup}) w (snd (handleDuplicate directory dry dup (r, w))) \<and>
   steady r (fst (handleDuplicate directory dry dup (r, w))) 0 (fi_size dup) \<and>
   (dry \<longrightarrow> deleted (fst (handleDuplicate directory dry dup (r, w))) = deleted r)"
  by (cases "fs_lookup (files w) (filepath dup)")
     (simp_all add: handleDuplicate_def Let_def removal_def steady_def fs_unlink_remove
        fs_remove_absent)

lemma fold_duplicates_post:
  "removal (if dry then {} else filepath ` set dups) w
     (snd (foldl (\<lambda>rw dup. handleDuplicate directory dry dup rw) (r, w) dups)) \<and>
   steady r (fst (foldl (\<lambda>rw dup. handleDuplicate directory dry dup rw) (r, w) dups)) 0
     (sum_list (map fi_size dups)) \<and>
   (dry \<longrightarrow> deleted (fst (foldl (\<lambda>rw dup. handleDuplicate directory dry dup rw) (r, w) dups))
            = deleted r)"
proof (induction dups arbitrary: r w)
  case Nil
  show ?case by (simp add: removal_refl steady_def)
next
  case (Cons dup dups)
  obtain r1 w1 where h: "handleDuplicate directory dry dup (r, w) = (r1, w1)"
    by (cases "handleDuplicate directory dry dup (r, w)")
  have step: "foldl (\<lambda>rw dup. handleDuplicate directory dry dup rw) (r, w) (dup # dups) =
              foldl (\<lambda>rw dup. handleDuplicate directory dry dup rw) (r1, w1) dups"
    by (simp add: h)
  from handleDuplicate_post[of dry dup w directory r] h have
    a1: "removal (if dry then {} else {filepath dup}) w w1" and
    a2: "steady r r1 0 (fi_size dup)" and a3: "dry \<longrightarrow> deleted r1 = deleted r" by auto
  from Cons[where r = r1 and w = w1] have
    b1: "removal (if dry then {} else filepath ` set dups) w1
           (snd (foldl (\<lambda>rw dup. handleDuplicate directory dry dup rw) (r1, w1) dups))" and
    b2: "steady r1 (fst (foldl (\<lambda>rw dup. handleDuplicate directory dry dup rw) (r1, w1) dups)) 0
           (sum_list (map fi_size dups))" and
    b3: "dry \<longrightarrow> deleted (fst (foldl (\<lambda>rw dup. handleDuplicate directory dry dup rw) (r1, w1) dups))
            = deleted r1" by simp_all
  have s: "(if dry then {} else {filepath dup}) \<union> (if dry then {} else filepath ` set dups)
           = (if dry then {} else filepath ` set (dup # dups))" by auto
  from removal_trans[OF a1 b1] have
    "removal (if dry then {} else filepath ` set (dup # dups)) w
       (snd (foldl (\<lambda>rw dup. handleDuplicate directory dry dup rw) (r1, w1) dups))"
    unfolding s .
  moreover from a2 b2 have
    "steady r (fst (foldl (\<lambda>rw dup. handleDuplicate directory dry dup rw) (r1, w1) dups)) 0
       (sum_list (map fi_size (dup # dups)))"
    by (simp add: steady_def)
  moreover from a3 b3 have
    "dry \<longrightarrow> deleted (fst (foldl (\<lambda>rw dup. handleDuplicate directory dry dup rw) (r1, w1) dups))
            = deleted r" by simp
  ultimately show ?case unfolding step by blast
qed

lemma handleGroup_post:
  "removal (if dry then {} else filepath ` set (duplicates g)) w
     (snd (handleGroup directory dry g (r, w))) \<and>
   steady r (fst (handleGroup directory dry g (r, w))) (int (length (duplicates g)))
     (sum_list (map fi_size (duplicates g))) \<and>
   (dry \<longrightarrow> deleted (fst (handleGroup directory dry g (r, w))) = deleted r)"
proof -
  let ?r0 = "r\<lparr>found := found r + int (length (duplicates g))\<rparr>"
  let ?w0 = "logger Info
               ([S ''['', S (if reason g = Identical then ''IDENTICAL'' else ''VISUAL MATCH''),
                 S ''] Keeping: '', S (basename (filepath (original g)))]
                @ dimsParts (original g) '' ('' '')'') w"
  have e: "handleGroup directory dry g (r, w) =
             foldl (\<lambda>rw dup. handleDuplicate directory dry dup rw) (?r0, ?w0) (duplicates g)"
    by (simp add: handleGroup_def)
  from fold_duplicates_post[of dry "duplicates g" ?w0 directory ?r0] show ?thesis
    unfolding e by (simp add: removal_def steady_def)
qed

lemma fold_groups_post:
  "removal (scanVictims dry gs) w
     (snd (foldl (\<lambda>rw g. handleGroup directory dry g rw) (r, w) gs)) \<and>
   steady r (fst (foldl (\<lambda>rw g. handleGroup directory dry g rw) (r, w) gs))
     (fst (tallyGroups gs)) (snd (tallyGroups gs)) \<and>
   (dry \<longrightarrow> deleted (fst (foldl (\<lambda>rw g. handleGroup directory dry g rw) (r, w) gs)) = deleted r)"
proof (induction gs arbitrary: r w)
  case Nil
  show ?case by (simp add: removal_refl steady_def tallyGroups_def scanVictims_def)
next
  case (Cons g gs)
  obtain r1 w1 where h: "handleGroup directory dry g (r, w) = (r1, w1)"
    by (cases "handleGroup directory dry g (r, w)")
  have step: "foldl (\<lambda>rw g. handleGroup directory dry g rw) (r, w) (g # gs) =
              foldl (\<lambda>rw g. handleGroup directory dry g rw) (r1, w1) gs"
    by (simp add: h)
  from handleGroup_post[of dry g w directory r] h have
    a1: "removal (if dry then {} else filepath ` set (duplicates g)) w w1" and
    a2: "steady r r1 (int (length (duplicates g))) (sum_list (map fi_size (duplicates g)))" and
    a3: "dry \<longrightarrow> deleted r1 = deleted r" by auto
  from Cons[where r = r1 and w = w1] have
    b1: "removal (scanVictims dry gs) w1
           (snd (foldl (\<lambda>rw g. handleGroup directory dry g rw) (r1, w1) gs))" and
    b2: "steady r1 (fst (foldl (\<lambda>rw g. handleGroup directory dry g rw) (r1, w1) gs))
           (fst (tallyGroups gs)) (snd (tallyGroups gs))" and
    b3: "dry \<longrightarrow> deleted (fst (foldl (\<lambda>rw g. handleGroup directory dry g rw) (r1, w1) gs))
            = deleted r1" by simp_all
  have s: "(if dry then {} else filepath ` set (duplicates g)) \<union> scanVictims dry gs
           = scanVictims dry (g # gs)" by (auto simp: scanVictims_def)
  from removal_trans[OF a1 b1] have
    "removal (scanVictims dry (g # gs)) w
       (snd (foldl (\<lambda>rw g. handleGroup directory dry g rw) (r1, w1) gs))"
    unfolding s .
  moreover from a2 b2 have
    "steady r (fst (foldl (\<lambda>rw g. handleGroup directory dry g rw) (r1, w1) gs))
       (fst (tallyGroups (g # gs))) (snd (tallyGroups (g # gs)))"
    by (simp add: steady_def tallyGroups_def)
  moreover from a3 b3 have
    "dry \<longrightarrow> deleted (fst (foldl (\<lambda>rw g. handleGroup directory dry g rw) (r1, w1) gs)) = deleted r"
    by simp
  ultimately show ?case unfolding step by blast
qed

lemma summary_simps [simp]:
  "files (summary dry a b r w) = files w" "dirs (summary dry a b r w) = dirs w"
  "state (summary dry a b r w) = state w" "reqs (summary dry a b r w) = reqs w"
  by (simp_all add: summary_def Let_def)

lemma scan_inaccessible:
  "directory \<notin> dirs w \<Longrightarrow>
     scan e directory dry w =
       (Inl CannotAccess, logger Error [S ''Cannot access directory: '', S directory] w)"
  by (simp add: scan_def)

lemma scan_post:
  assumes "directory \<in> dirs w"
  shows "\<exists>r. fst (scan e directory dry w) = Inr r \<and>
           removal (scanVictims dry (allGroups e directory (files w))) w (snd (scan e directory dry w)) \<and>
           found r = fst (tallyGroups (allGroups e directory (files w))) \<and>
           freedBytes r = snd (tallyGroups (allGroups e directory (files w))) \<and>
           (dry \<longrightarrow> deleted r = 0)"
proof -
  let ?w0 = "logger Info [S ''Scanning directory: '', S directory] w"
  let ?fis = "findMediaFiles (files w) directory"
  let ?w1 = "logger Console []
               (logger Info [S ''Found '', N (int (length ?fis)), S '' media files''] ?w0)"
  let ?ig = "identicalGroupsOf e (files w) ?fis"
  let ?hashed = "map (hashContent e (files w)) ?fis"
  let ?w2 = "logger Info [S ''Checking for identical files (content hash)...''] ?w1"
  let ?vg = "visualGroupsOf e (files w) ?hashed (excludedHashes ?ig)"
  let ?w3 = "logger Info [S ''Checking for visually similar images (different resolutions)...''] ?w2"
  let ?r0 = "\<lparr>found = 0, deleted = 0, freedBytes = 0\<rparr>"
  let ?w3' = "logger Console [] ?w3"
  let ?res = "foldl (\<lambda>rw g. handleGroup directory dry g rw) (?r0, ?w3') (?ig @ ?vg)"
  have ag: "allGroups e directory (files w) = ?ig @ ?vg" by (simp add: allGroups_def)
  have sc: "scan e directory dry w =
              (Inr (fst ?res), summary dry (length ?ig) (length ?vg) (fst ?res) (snd ?res))"
    using assms
    by (simp add: scan_def Let_def findIdenticalFiles_def findVisuallySimilar_def
        split: prod.splits)
  from fold_groups_post[of dry "?ig @ ?vg" ?w3' directory ?r0] have
    p1: "removal (scanVictims dry (?ig @ ?vg)) ?w3' (snd ?res)" and
    p2: "steady ?r0 (fst ?res) (fst (tallyGroups (?ig @ ?vg))) (snd (tallyGroups (?ig @ ?vg)))" and
    p3: "dry \<longrightarrow> deleted (fst ?res) = deleted ?r0" by simp_all
  from p1 have "removal (scanVictims dry (?ig @ ?vg)) w
                  (summary dry (length ?ig) (length ?vg) (fst ?res) (snd ?res))"
    by (simp add: removal_def)
  with p2 p3 show ?thesis unfolding sc ag by (simp add: steady_def)
qed

section \<open>What each phase removes\<close>

lemma members_concat: "members gs = concat (map snd gs)"
  by (induction gs) auto

lemma onlyFirstRemains_group:
  assumes r: "removal (f ` (\<Union>g' \<in> set gs. set (victims cmp g'))) w w'"
    and d: "distinct (map f (concat gs))" and g: "g \<in> set gs" and l: "2 \<le> length g"
  shows "onlyFirstRemains f (sort_by cmp g) w w'"
proof -
  from l have ne: "g \<noteq> []" by auto
  from group_outcome[OF r d g l] have
    a: "fs_lookup (files w') (f (hd (sort_by cmp g))) = fs_lookup (files w) (f (hd (sort_by cmp g)))"
    and b: "\<forall>i \<in> set g. i \<noteq> hd (sort_by cmp g) \<longrightarrow> fs_lookup (files w') (f i) = None"
    by blast+
  from distinct_member[OF d g] have dg: "distinct (map f g)" .
  have "fs_lookup (files w') (f i) = None" if i: "i \<in> set (tl (sort_by cmp g))" for i
  proof -
    from set_tl_sort_by[OF ne, of cmp] i have ig: "i \<in> set g" by auto
    from hd_not_in_tl_sort_by[OF ne dg, of cmp] i have "i \<noteq> hd (sort_by cmp g)" by auto
    with b ig show ?thesis by blast
  qed
  with a show ?thesis by (simp add: onlyFirstRemains_def list_all_iff)
qed

lemma removeFilenameDuplicates_removal:
  "removal (path ` (\<Union>g \<in> set (map snd (groupBy filenameKey imageInfos)). set (victims byQuality g))) w
     (snd (removeFilenameDuplicates imageInfos w))"
proof -
  obtain r w1 where g: "removeGroups byQuality ''Keeping (filename group): ''
      ''Removed (filename duplicate): '' (groupBy filenameKey imageInfos) 0 w = (r, w1)"
    by (cases "removeGroups byQuality ''Keeping (filename group): ''
      ''Removed (filename duplicate): '' (groupBy filenameKey imageInfos) 0 w")
  from removeGroups_removal[of byQuality "groupBy filenameKey imageInfos" w
      "''Keeping (filename group): ''" "''Removed (filename duplicate): ''" 0] g
  have "removal (path ` (\<Union>g \<in> set (map snd (groupBy filenameKey imageInfos)).
           set (victims byQuality g))) w w1" by simp
  then show ?thesis using g by (simp add: removeFilenameDuplicates_def removal_def)
qed

lemma removeContentDuplicates_removal:
  "removal (path ` (\<Union>g \<in> set (map snd (groupBy contentHash
        (map (withContentHash e (files w)) imageInfos))). set (victims byNameLength g))) w
     (snd (removeContentDuplicates e imageInfos w))"
proof -
  let ?gs = "groupBy contentHash (map (withContentHash e (files w)) imageInfos)"
  obtain r w1 where g: "removeGroups byNameLength ''Keeping (identical): ''
      ''Removed (identical): '' ?gs 0 w = (r, w1)"
    by (cases "removeGroups byNameLength ''Keeping (identical): '' ''Removed (identical): '' ?gs 0 w")
  from removeGroups_removal[of byNameLength ?gs w
      "''Keeping (identical): ''" "''Removed (identical): ''" 0] g
  have "removal (path ` (\<Union>g \<in> set (map snd ?gs). set (victims byNameLength g))) w w1" by simp
  then show ?thesis using g by (simp add: removeContentDuplicates_def removal_def)
qed

lemma removeVisualDuplicates_removal:
  "removal (h_path ` (\<Union>g \<in> set (clustersFrom e
        (List.map_filter (hashedImage e (files w)) imageFiles) 0 {}). set (victims byQualityH g))) w
     (snd (removeVisualDuplicates e imageFiles w))"
proof -
  let ?infos = "List.map_filter (hashedImage e (files w)) imageFiles"
  obtain r w1 where g: "visualLoop e ?infos 0 {} 0 w = (r, w1)"
    by (cases "visualLoop e ?infos 0 {} 0 w")
  from visualLoop_removal[of e ?infos 0 "{}" w 0] g
  have "removal (h_path ` (\<Union>g \<in> set (clustersFrom e ?infos 0 {}). set (victims byQualityH g)))
          w w1" by simp
  then show ?thesis using g by (simp add: removeVisualDuplicates_def removal_def)
qed

lemma h_path_hashedImage:
  "map h_path (List.map_filter (hashedImage e fs) imageFiles) =
     filter (\<lambda>p. hashedImage e fs p \<noteq> None) imageFiles"
proof (induction imageFiles)
  case Nil
  show ?case by (simp add: List.map_filter_simps)
next
  case (Cons p ps)
  show ?case
  proof (cases "hashedImage e fs p")
    case None
    with Cons show ?thesis by (simp add: List.map_filter_simps)
  next
    case (Some h)
    then have "h_path h = p"
      by (auto simp: hashedImage_def split: option.splits if_splits)
    with Cons Some show ?thesis by (simp add: List.map_filter_simps)
  qed
qed

lemma distinct_hashedImages:
  "distinct imageFiles \<Longrightarrow> distinct (map h_path (List.map_filter (hashedImage e fs) imageFiles))"
  by (simp add: h_path_hashedImage)

lemma path_withContentHash [simp]: "path (withContentHash e fs i) = path i"
  by (simp add: withContentHash_def)

section \<open>The groups of a scan\<close>

lemma filepath_hashContent [simp]: "filepath (hashContent e fs f) = filepath f"
  by (simp add: hashContent_def)

lemma filepath_analyse [simp]: "filepath (analyse e fs f) = filepath f"
  by (simp add: analyse_def split: option.splits prod.splits)

lemma map_filepath_findMediaFiles:
  "map filepath (findMediaFiles fs directory) =
     map fst (filter (\<lambda>(p, content). under directory p \<and>
                  drop 1 (toLowerCase (extname p)) \<in> set mediaExtensions) fs)"
  by (simp add: findMediaFiles_def comp_def case_prod_beta)

lemma distinct_findMediaFiles:
  "distinct (map fst fs) \<Longrightarrow> distinct (map filepath (findMediaFiles fs directory))"
  unfolding map_filepath_findMediaFiles by (rule distinct_map_filter)

lemma findMediaFiles_exist:
  assumes "distinct (map fst fs)" "f \<in> set (findMediaFiles fs directory)"
  shows "fs_lookup fs (filepath f) \<noteq> None"
proof -
  from assms(2) have "filepath f \<in> set (map filepath (findMediaFiles fs directory))" by simp
  then have "filepath f \<in> fst ` set fs" unfolding map_filepath_findMediaFiles by auto
  then show ?thesis by (simp add: fs_lookup_def map_of_eq_None_iff)
qed

lemma entries_duplicateGroups:
  "map entries (duplicateGroups (sort_by cmp) why groups) =
     map (sort_by cmp) (filter (\<lambda>g. \<not> length g < 2) (map snd groups))"
proof (induction groups)
  case Nil
  show ?case by (simp add: duplicateGroups_def)
next
  case (Cons kg groups)
  obtain k g where kg: "kg = (k, g)" by (cases kg)
  from Cons have IH: "map entries (duplicateGroups (sort_by cmp) why groups) =
     map (sort_by cmp) (filter (\<lambda>g. \<not> length g < 2) (map snd groups))" .
  show ?case
  proof (cases "length g < 2")
    case True
    with IH show ?thesis by (simp add: duplicateGroups_def kg)
  next
    case False
    then have "g \<noteq> []" by auto
    from sort_by_split[OF this, of cmp]
    have "entries \<lparr>original = hd (sort_by cmp g), duplicates = tl (sort_by cmp g),
                   reason = why\<rparr> = sort_by cmp g" by (simp add: entries_def)
    with IH False show ?thesis by (simp add: duplicateGroups_def kg)
  qed
qed

lemma distinct_concat_sort:
  "distinct (map f (concat gs)) \<Longrightarrow> distinct (map f (concat (map (sort_by cmp) gs)))"
proof (induction gs)
  case Nil
  show ?case by simp
next
  case (Cons g gs)
  from Cons(2) have a: "distinct (map f g)" and b: "distinct (map f (concat gs))"
    and c: "f ` set g \<inter> f ` set (concat gs) = {}" by auto
  have "set (concat (map (sort_by cmp) gs)) = set (concat gs)" by simp
  with a Cons(1)[OF b] c show ?case by simp
qed

lemma distinct_concat_filter:
  "distinct (map f (concat gs)) \<Longrightarrow> distinct (map f (concat (filter P gs)))"
proof (induction gs)
  case Nil
  show ?case by simp
next
  case (Cons g gs)
  from Cons(2) have a: "distinct (map f g)" and b: "distinct (map f (concat gs))"
    and c: "f ` set g \<inter> f ` set (concat gs) = {}" by auto
  have "set (concat (filter P gs)) \<subseteq> set (concat gs)" by auto
  with a Cons(1)[OF b] c show ?case by auto
qed

lemma distinct_entries:
  assumes "distinct (map f xs)"
  shows "distinct (map f (concat (map entries
            (duplicateGroups (sort_by cmp) why (groupBy key xs)))))"
proof -
  from distinct_groupBy[OF assms, of key]
  have "distinct (map f (concat (map snd (groupBy key xs))))" by (simp add: members_concat)
  then have "distinct (map f (concat (filter (\<lambda>g. \<not> length g < 2) (map snd (groupBy key xs)))))"
    by (rule distinct_concat_filter)
  then show ?thesis unfolding entries_duplicateGroups by (rule distinct_concat_sort)
qed

lemma set_entries:
  "set (concat (map entries (duplicateGroups (sort_by cmp) why (groupBy key xs)))) \<subseteq> set xs"
proof -
  have "set (concat (filter (\<lambda>g. \<not> length g < 2) (map snd (groupBy key xs))))
          \<subseteq> set (members (groupBy key xs))"
    by (auto simp: members_concat)
  also have "\<dots> \<subseteq> set xs" unfolding set_groupBy by auto
  finally show ?thesis unfolding entries_duplicateGroups by simp
qed

lemma excludedHashes_iff:
  "k \<in> excludedHashes gs \<longleftrightarrow>
     (\<exists>g \<in> set gs. \<exists>d \<in> set (duplicates g).
         truthy (fi_contentHash d) \<and> fi_contentHash d = Some k)"
proof
  assume "k \<in> excludedHashes gs"
  then obtain g d where gd: "g \<in> set gs" "d \<in> set (duplicates g)"
      and i: "(if truthy (fi_contentHash d) then fi_contentHash d else None) = Some k"
    unfolding excludedHashes_def List.map_filter_def by auto
  from i have "truthy (fi_contentHash d)" "fi_contentHash d = Some k"
    by (cases "truthy (fi_contentHash d)"; simp)+
  with gd show "\<exists>g \<in> set gs. \<exists>d \<in> set (duplicates g).
         truthy (fi_contentHash d) \<and> fi_contentHash d = Some k"
    by blast
next
  assume "\<exists>g \<in> set gs. \<exists>d \<in> set (duplicates g).
         truthy (fi_contentHash d) \<and> fi_contentHash d = Some k"
  then obtain g d where g: "g \<in> set gs" and d: "d \<in> set (duplicates g)"
    and t: "truthy (fi_contentHash d)" and k: "fi_contentHash d = Some k" by blast
  from d t k have "k \<in> set (List.map_filter
       (\<lambda>dup. if truthy (fi_contentHash dup) then fi_contentHash dup else None) (duplicates g))"
    unfolding List.map_filter_def by force
  with g show "k \<in> excludedHashes gs" unfolding excludedHashes_def by auto
qed

text \<open>Every member of an identical group carries an excluded hash.\<close>

lemma identical_entries_excluded:
  assumes g: "g \<in> set (identicalGroupsOf e fs fileInfos)" and m: "m \<in> set (entries g)"
  shows "truthy (fi_contentHash m) \<and>
         the (fi_contentHash m) \<in> excludedHashes (identicalGroupsOf e fs fileInfos)"
proof -
  let ?xs = "map (hashContent e fs) fileInfos"
  let ?gs = "groupBy fi_contentHash ?xs"
  from g obtain k gf where kg: "(k, gf) \<in> set ?gs" and l: "\<not> length gf < 2"
    and gd: "g = \<lparr>original = hd (sort_by nameLengthOrder gf),
                   duplicates = tl (sort_by nameLengthOrder gf), reason = Identical\<rparr>"
    by (auto simp: identicalGroupsOf_def duplicateGroups_def)
  from l have ne: "gf \<noteq> []" by auto
  from keyed_groupBy[of fi_contentHash ?xs] kg have key: "\<forall>y \<in> set gf. fi_contentHash y = Some k"
    unfolding keyed_def by blast
  from kg have "set gf \<subseteq> set (members ?gs)" by (auto simp: set_members)
  then have tr: "\<forall>y \<in> set gf. truthy (fi_contentHash y)" unfolding set_groupBy by auto
  have en: "set (entries g) = set gf"
    unfolding gd entries_def using set_tl_sort_by[OF ne, of nameLengthOrder] by simp
  from l obtain d where d: "d \<in> set (tl (sort_by nameLengthOrder gf))"
    by (cases "sort_by nameLengthOrder gf"; cases "tl (sort_by nameLengthOrder gf)")
       (auto dest: arg_cong[where f = length])
  with set_tl_sort_by[OF ne, of nameLengthOrder] have dg: "d \<in> set gf" by auto
  from d gd have dd: "d \<in> set (duplicates g)" by simp
  from dg key tr have dk: "fi_contentHash d = Some k" "truthy (fi_contentHash d)" by auto
  have "k \<in> excludedHashes (identicalGroupsOf e fs fileInfos)"
    unfolding excludedHashes_iff using g dd dk by blast
  moreover from m en key tr have "fi_contentHash m = Some k" "truthy (fi_contentHash m)" by auto
  ultimately show ?thesis by simp
qed

lemma filepath_comp_hashContent [simp]: "filepath \<circ> hashContent e fs = filepath"
  by (rule ext) simp

lemma filepath_comp_analyse [simp]: "filepath \<circ> analyse e fs = filepath"
  by (rule ext) simp

lemma visual_entries:
  assumes "g \<in> set (visualGroupsOf e fs fileInfos X)" "m \<in> set (entries g)"
  shows "\<exists>f \<in> set fileInfos. notExcluded X f \<and> m = analyse e fs f"
proof -
  have sq: "sortByQuality = sort_by qualityOrder" by (rule ext) (simp add: sortByQuality_def)
  from assms have "m \<in> set (concat (map entries (visualGroupsOf e fs fileInfos X)))" by auto
  with set_entries[of qualityOrder Visual fi_visualHash
                     "map (analyse e fs) (filter (notExcluded X) fileInfos)"]
  have "m \<in> set (map (analyse e fs) (filter (notExcluded X) fileInfos))"
    unfolding visualGroupsOf_def sq by blast
  then show ?thesis by auto
qed

lemma identical_entries:
  assumes "g \<in> set (identicalGroupsOf e fs fileInfos)" "m \<in> set (entries g)"
  shows "m \<in> hashContent e fs ` set fileInfos"
proof -
  from assms have "m \<in> set (concat (map entries (identicalGroupsOf e fs fileInfos)))" by auto
  with set_entries[of nameLengthOrder Identical fi_contentHash "map (hashContent e fs) fileInfos"]
  show ?thesis unfolding identicalGroupsOf_def by auto
qed

lemma distinct_identical:
  assumes "distinct (map filepath fileInfos)"
  shows "distinct (map filepath (concat (map entries (identicalGroupsOf e fs fileInfos))))"
proof -
  have "map filepath (map (hashContent e fs) fileInfos) = map filepath fileInfos" by simp
  with assms have "distinct (map filepath (map (hashContent e fs) fileInfos))" by simp
  then show ?thesis unfolding identicalGroupsOf_def by (rule distinct_entries)
qed

lemma distinct_visual:
  assumes "distinct (map filepath fileInfos)"
  shows "distinct (map filepath (concat (map entries (visualGroupsOf e fs fileInfos X))))"
proof -
  have sq: "sortByQuality = sort_by qualityOrder" by (rule ext) (simp add: sortByQuality_def)
  have "map filepath (map (analyse e fs) (filter (notExcluded X) fileInfos)) =
          map filepath (filter (notExcluded X) fileInfos)" by simp
  moreover from assms have "distinct (map filepath (filter (notExcluded X) fileInfos))"
    by (rule distinct_map_filter)
  ultimately have "distinct (map filepath (map (analyse e fs) (filter (notExcluded X) fileInfos)))"
    by simp
  then show ?thesis unfolding visualGroupsOf_def sq by (rule distinct_entries)
qed

lemma distinct_allGroups:
  assumes "distinct (map fst fs)"
  shows "distinct (map filepath (concat (map entries (allGroups e directory fs))))"
proof -
  let ?media = "findMediaFiles fs directory"
  let ?hashed = "map (hashContent e fs) ?media"
  let ?ig = "identicalGroupsOf e fs ?media"
  let ?vg = "visualGroupsOf e fs ?hashed (excludedHashes ?ig)"
  from assms have dm: "distinct (map filepath ?media)" by (rule distinct_findMediaFiles)
  then have dh: "distinct (map filepath ?hashed)" by simp
  have "filepath ` set (concat (map entries ?ig)) \<inter> filepath ` set (concat (map entries ?vg)) = {}"
  proof (rule ccontr)
    assume "\<not> ?thesis"
    then obtain m v gi gv where gi: "gi \<in> set ?ig" and m: "m \<in> set (entries gi)"
      and gv: "gv \<in> set ?vg" and v: "v \<in> set (entries gv)" and eq: "filepath m = filepath v"
      by auto
    from identical_entries[OF gi m] have mh: "m \<in> set ?hashed" by simp
    from visual_entries[OF gv v] obtain f where f: "f \<in> set ?hashed"
      and ne: "notExcluded (excludedHashes ?ig) f" and vf: "v = analyse e fs f" by blast
    from eq vf have "filepath m = filepath f" by simp
    with dh mh f have "m = f" by (meson distinct_map inj_onD)
    with identical_entries_excluded[OF gi m] ne show False by (simp add: notExcluded_def)
  qed
  with distinct_identical[OF dm, of e fs] distinct_visual[OF dh, of e fs "excludedHashes ?ig"]
  show ?thesis by (simp add: allGroups_def)
qed

lemma allGroups_exist:
  assumes "distinct (map fst fs)" "g \<in> set (allGroups e directory fs)" "m \<in> set (entries g)"
  shows "fs_lookup fs (filepath m) \<noteq> None"
proof -
  let ?media = "findMediaFiles fs directory"
  let ?hashed = "map (hashContent e fs) ?media"
  from assms(2) consider "g \<in> set (identicalGroupsOf e fs ?media)"
    | "g \<in> set (visualGroupsOf e fs ?hashed (excludedHashes (identicalGroupsOf e fs ?media)))"
    by (auto simp: allGroups_def)
  then obtain f where "f \<in> set ?media" "filepath m = filepath f"
  proof cases
    case 1
    from identical_entries[OF 1 assms(3)] that show ?thesis by auto
  next
    case 2
    from visual_entries[OF 2 assms(3)] that show ?thesis by auto
  qed
  with findMediaFiles_exist[OF assms(1)] show ?thesis by metis
qed

lemma allGroups_nonempty:
  assumes "g \<in> set (allGroups e directory fs)"
  shows "duplicates g \<noteq> []"
proof -
  have a: "\<And>srt why groups. g \<in> set (duplicateGroups (sort_by srt) why groups) \<Longrightarrow>
             duplicates g \<noteq> []"
  proof -
    fix srt :: "FileInfo \<Rightarrow> FileInfo \<Rightarrow> int" and why groups
    assume "g \<in> set (duplicateGroups (sort_by srt) why groups)"
    then obtain gf where l: "\<not> length gf < 2" and d: "duplicates g = tl (sort_by srt gf)"
      by (auto simp: duplicateGroups_def)
    from l have "length (sort_by srt gf) \<ge> 2" by simp
    then show "duplicates g \<noteq> []" unfolding d
      by (cases "sort_by srt gf"; cases "tl (sort_by srt gf)") auto
  qed
  have sq: "sortByQuality = sort_by qualityOrder" by (rule ext) (simp add: sortByQuality_def)
  from assms show ?thesis
    by (auto simp: allGroups_def identicalGroupsOf_def visualGroupsOf_def sq dest: a)
qed

lemma scan_group_outcome:
  assumes r: "removal (filepath ` (\<Union>g' \<in> set gs. set (duplicates g'))) w w'"
    and d: "distinct (map filepath (concat (map entries gs)))" and g: "g \<in> set gs"
  shows "fs_lookup (files w') (filepath (original g)) = fs_lookup (files w) (filepath (original g)) \<and>
         (\<forall>x \<in> set (duplicates g). fs_lookup (files w') (filepath x) = None)"
proof (intro conjI ballI)
  have "filepath (original g) \<notin> filepath ` (\<Union>g' \<in> set gs. set (duplicates g'))"
  proof
    assume "filepath (original g) \<in> filepath ` (\<Union>g' \<in> set gs. set (duplicates g'))"
    then obtain g' x where g': "g' \<in> set gs" and x: "x \<in> set (duplicates g')"
      and eq: "filepath (original g) = filepath x" by auto
    from d g have dg: "distinct (map filepath (entries g))"
      by (induction gs) auto
    show False
    proof (cases "entries g = entries g'")
      case True
      then have "duplicates g = duplicates g'" by (simp add: entries_def)
      with x dg eq show False by (auto simp: entries_def)
    next
      case False
      from g g' have "entries g \<in> set (map entries gs)" "entries g' \<in> set (map entries gs)"
        by auto
      from disjoint_groups[OF d this False]
      have "filepath ` set (entries g) \<inter> filepath ` set (entries g') = {}" .
      moreover have "filepath (original g) \<in> filepath ` set (entries g)"
        by (simp add: entries_def)
      moreover from x eq have "filepath (original g) \<in> filepath ` set (entries g')"
        by (auto simp: entries_def)
      ultimately show False by blast
    qed
  qed
  with r show "fs_lookup (files w') (filepath (original g)) =
                 fs_lookup (files w) (filepath (original g))"
    by (simp add: removal_def)
next
  fix x assume "x \<in> set (duplicates g)"
  with g have "filepath x \<in> filepath ` (\<Union>g' \<in> set gs. set (duplicates g'))" by auto
  with r show "fs_lookup (files w') (filepath x) = None" by (simp add: removal_def)
qed

section \<open>The inputs of the deduplication phases\<close>

lemma distinct_findImageFiles:
  "distinct (map fst fs) \<Longrightarrow> distinct (findImageFiles fs dir)"
  unfolding findImageFiles_def by (rule distinct_map_filter)

lemma path_imageInfos:
  "map path (List.map_filter (imageInfo e fs) imageFiles) =
     filter (\<lambda>p. imageInfo e fs p \<noteq> None) imageFiles"
proof (induction imageFiles)
  case Nil
  show ?case by (simp add: List.map_filter_def)
next
  case (Cons p ps)
  then show ?case
    by (cases "fs_lookup fs p") (auto simp: List.map_filter_def imageInfo_def Let_def)
qed

lemma path_remaining:
  "map path (List.map_filter (\<lambda>p. find (\<lambda>i. path i = p) imageInfos) imageFiles) =
     filter (\<lambda>p. find (\<lambda>i. path i = p) imageInfos \<noteq> None) imageFiles"
proof (induction imageFiles)
  case Nil
  show ?case by (simp add: List.map_filter_def)
next
  case (Cons p ps)
  show ?case
  proof (cases "find (\<lambda>i. path i = p) imageInfos")
    case None
    with Cons show ?thesis by (simp add: List.map_filter_def)
  next
    case (Some i)
    then have "path i = p" by (auto simp: find_Some_iff)
    with Some Cons show ?thesis by (simp add: List.map_filter_def)
  qed
qed

text \<open>The lists \<open>deduplicate\<close> hands to its three phases name every file once.\<close>

lemma deduplicate_inputs_distinct:
  assumes "distinct (map fst fs)"
  shows "distinct (findImageFiles fs dir)"
    and "distinct (map path (List.map_filter (imageInfo e fs) (findImageFiles fs dir)))"
    and "distinct (map path (List.map_filter (\<lambda>p. find (\<lambda>i. path i = p) imageInfos)
                                (findImageFiles fs dir)))"
  using distinct_findImageFiles[OF assms, of dir]
  by (simp_all add: path_imageInfos path_remaining)

section \<open>Dry runs\<close>

lemma decisions_append [simp]: "decisions (a @ b) = decisions a @ decisions b"
  by (simp add: decisions_def)

lemma decisions_Nil [simp]: "decisions [] = []"
  by (simp add: decisions_def)

lemma decisions_Cons [simp]: "decisions (ev # evs) = decisionOf ev @ decisions evs"
  by (simp add: decisions_def)

lemma handleDuplicate_decisions:
  "decisions (trace (snd (handleDuplicate directory dry dup (r, w)))) =
     decisions (trace w) @ [Deleting (drop (length directory + 1) (filepath dup))]"
  by (cases "fs_lookup (files w) (filepath dup)")
     (simp_all add: handleDuplicate_def Let_def decisionOf_def textOf_def)

lemma fold_duplicates_decisions:
  "decisions (trace (snd (foldl (\<lambda>rw dup. handleDuplicate directory dry dup rw) (r, w) dups))) =
     decisions (trace w) @ map (\<lambda>d. Deleting (drop (length directory + 1) (filepath d))) dups"
proof (induction dups arbitrary: r w)
  case Nil
  show ?case by simp
next
  case (Cons dup dups)
  obtain r1 w1 where h: "handleDuplicate directory dry dup (r, w) = (r1, w1)"
    by (cases "handleDuplicate directory dry dup (r, w)")
  from handleDuplicate_decisions[of directory dry dup r w] h
  have "decisions (trace w1) =
          decisions (trace w) @ [Deleting (drop (length directory + 1) (filepath dup))]"
    by simp
  with Cons[of r1 w1] h show ?case by simp
qed

lemma handleGroup_decisions:
  "decisions (trace (snd (handleGroup directory dry g (r, w)))) =
     decisions (trace w) @ groupDecisions directory [g]"
  by (simp add: handleGroup_def fold_duplicates_decisions groupDecisions_def
        decisionOf_def textOf_def)

lemma groupDecisions_Cons:
  "groupDecisions directory (g # gs) = groupDecisions directory [g] @ groupDecisions directory gs"
  by (simp add: groupDecisions_def)

lemma fold_groups_decisions:
  "decisions (trace (snd (foldl (\<lambda>rw g. handleGroup directory dry g rw) (r, w) gs))) =
     decisions (trace w) @ groupDecisions directory gs"
proof (induction gs arbitrary: r w)
  case Nil
  show ?case by (simp add: groupDecisions_def)
next
  case (Cons g gs)
  obtain r1 w1 where h: "handleGroup directory dry g (r, w) = (r1, w1)"
    by (cases "handleGroup directory dry g (r, w)")
  from handleGroup_decisions[of directory dry g r w] h
  have "decisions (trace w1) = decisions (trace w) @ groupDecisions directory [g]" by simp
  with Cons[of r1 w1] h show ?case by (simp add: groupDecisions_Cons[of directory g gs])
qed

lemma summary_decisions:
  "decisions (trace (summary dry a b r w)) = decisions (trace w)"
  by (simp add: summary_def Let_def decisionOf_def)

lemma scan_decisions:
  "decisions (trace (snd (scan e directory dry w))) =
     decisions (trace w) @
       (if directory \<in> dirs w then groupDecisions directory (allGroups e directory (files w))
        else [])"
proof (cases "directory \<in> dirs w")
  case False
  then show ?thesis by (simp add: scan_inaccessible decisionOf_def)
next
  case True
  let ?w3 = "logger Console []
      (logger Info [S ''Checking for visually similar images (different resolutions)...'']
        (logger Info [S ''Checking for identical files (content hash)...'']
          (logger Console []
            (logger Info [S ''Found '', N (int (length (findMediaFiles (files w) directory))),
                          S '' media files'']
              (logger Info [S ''Scanning directory: '', S directory] w)))))"
  let ?res = "foldl (\<lambda>rw g. handleGroup directory dry g rw)
                (\<lparr>found = 0, deleted = 0, freedBytes = 0\<rparr>, ?w3)
                (allGroups e directory (files w))"
  have sc: "snd (scan e directory dry w) =
              summary dry (length (identicalGroupsOf e (files w) (findMediaFiles (files w) directory)))
                (length (visualGroupsOf e (files w)
                    (map (hashContent e (files w)) (findMediaFiles (files w) directory))
                    (excludedHashes (identicalGroupsOf e (files w)
                        (findMediaFiles (files w) directory)))))
                (fst ?res) (snd ?res)"
    using True
    by (simp add: scan_def Let_def findIdenticalFiles_def findVisuallySimilar_def allGroups_def
          split: prod.splits)
  have "decisions (trace ?w3) = decisions (trace w)"
    by (simp add: decisionOf_def)
  with fold_groups_decisions[of directory dry "\<lparr>found = 0, deleted = 0, freedBytes = 0\<rparr>" ?w3
         "allGroups e directory (files w)"] True
  show ?thesis unfolding sc summary_decisions by simp
qed

lemma scan_dry_frame:
  "files (snd (scan e directory True w)) = files w \<and> dirs (snd (scan e directory True w)) = dirs w"
proof (cases "directory \<in> dirs w")
  case False
  then show ?thesis by (simp add: scan_inaccessible)
next
  case True
  from scan_post[OF True, of e True] show ?thesis
    by (auto simp: removal_def scanVictims_def)
qed

lemma ancestors_self: "p \<in> set (ancestors p)"
  by (subst ancestors.simps) simp

lemma processDownload_dry_dirs:
  assumes "dryRun c"
  shows "\<exists>w'. processDownload e c url w = Some w' \<and>
           (admitted e url w \<longrightarrow>
              dirs w' = dirs w \<union> set (ancestors (path_join (outputDir c) (getDomain e url))) \<and>
              Mkdir (path_join (outputDir c) (getDomain e url)) \<in> set (news w w')) \<and>
           (\<not> admitted e url w \<longrightarrow> dirs w' = dirs w)"
  using assms
  by (auto simp: processDownload_def fetchInto_def Let_def admitted_def news_def
        split: option.splits)

lemma processDownload_dry:
  assumes "dryRun c"
  shows "\<exists>w'. processDownload e c url w = Some w' \<and> files w' = files w \<and> reqs w' = reqs w \<and>
           dirs w \<subseteq> dirs w' \<and>
           dirs w' \<subseteq> dirs w \<union> set (ancestors (path_join (outputDir c) (getDomain e url))) \<and>
           (wouldDownloadLine e c url w \<in> set (news w w') \<longleftrightarrow>
              admitted e url w \<and> \<not> resumeSkips e c url w) \<and>
           (\<not> (admitted e url w \<and> \<not> resumeSkips e c url w) \<longrightarrow>
              processDownload e (c\<lparr>dryRun := False\<rparr>) url w = Some w')"
  using assms
  by (auto simp: processDownload_def fetchInto_def Let_def admitted_def resumeSkips_def
        destination_def target_def wouldDownloadLine_def news_def split: option.splits)

section \<open>Every pass keeps one file of each group\<close>



section \<open>What a dry run does\<close>

text \<open>
  Claim C4, as the code has it. In a dry run \<open>processDownload\<close> returns, writes and
  deletes no file and sends no request. For a URL that passes the two guards it creates
  the domain directory with its ancestors, and nothing else (the \<open>mkdir\<close> of line 82
  precedes the dry-run check of line 102); for any other URL the directories stay as
  they are. It prints the line \<open>[DRY-RUN] Would download\<close> exactly for a URL that
  passes the guards and the resume check, which are the URLs a real run tries to fetch,
  and for every other URL it does what a real run does. \<open>deduplicate\<close> in a dry run
  returns 0 at once and leaves the world, the log included, untouched. \<open>scan\<close> in a
  dry run changes neither files nor directories, deletes nothing, logs the same kept and
  deleted files as a deleting scan of the same directory, and reports the same number of
  duplicates and the same byte total.
\<close>

theorem dry_run_changes_no_file:
  "(dryRun c \<longrightarrow>
      (\<exists>w'. processDownload e c url w = Some w' \<and> files w' = files w \<and> reqs w' = reqs w \<and>
            (admitted e url w \<longrightarrow>
               dirs w' = dirs w \<union> set (ancestors (path_join (outputDir c) (getDomain e url))) \<and>
               path_join (outputDir c) (getDomain e url) \<in> dirs w' \<and>
               Mkdir (path_join (outputDir c) (getDomain e url)) \<in> set (news w w')) \<and>
            (\<not> admitted e url w \<longrightarrow> dirs w' = dirs w) \<and>
            (wouldDownloadLine e c url w \<in> set (news w w') \<longleftrightarrow>
               admitted e url w \<and> \<not> resumeSkips e c url w) \<and>
            (\<not> (admitted e url w \<and> \<not> resumeSkips e c url w) \<longrightarrow>
               processDownload e (c\<lparr>dryRun := False\<rparr>) url w = Some w'))) \<and>
   deduplicate e outDir True w = (0, w) \<and>
   files (snd (scan e directory True w)) = files w \<and>
   dirs (snd (scan e directory True w)) = dirs w \<and>
   decisions (trace (snd (scan e directory True w))) =
     decisions (trace (snd (scan e directory False w))) \<and>
   (directory \<in> dirs w \<longrightarrow>
      (\<exists>r r'. fst (scan e directory True w) = Inr r \<and> fst (scan e directory False w) = Inr r' \<and>
              found r = found r' \<and> freedBytes r = freedBytes r' \<and> deleted r = 0))"
proof (intro conjI impI)
  assume dry: "dryRun c"
  from processDownload_dry[OF dry, of e url w] obtain w' where
    a: "processDownload e c url w = Some w'" "files w' = files w" "reqs w' = reqs w"
       "wouldDownloadLine e c url w \<in> set (news w w') \<longleftrightarrow>
          admitted e url w \<and> \<not> resumeSkips e c url w"
       "\<not> (admitted e url w \<and> \<not> resumeSkips e c url w) \<longrightarrow>
          processDownload e (c\<lparr>dryRun := False\<rparr>) url w = Some w'"
    by blast
  from processDownload_dry_dirs[OF dry, of e url w] a(1) have
    b: "admitted e url w \<longrightarrow>
          dirs w' = dirs w \<union> set (ancestors (path_join (outputDir c) (getDomain e url))) \<and>
          Mkdir (path_join (outputDir c) (getDomain e url)) \<in> set (news w w')"
       "\<not> admitted e url w \<longrightarrow> dirs w' = dirs w"
    by auto
  from b(1) ancestors_self[of "path_join (outputDir c) (getDomain e url)"] have
    c: "admitted e url w \<longrightarrow> path_join (outputDir c) (getDomain e url) \<in> dirs w'" by simp
  from a b c show "\<exists>w'. processDownload e c url w = Some w' \<and> files w' = files w \<and>
            reqs w' = reqs w \<and>
            (admitted e url w \<longrightarrow>
               dirs w' = dirs w \<union> set (ancestors (path_join (outputDir c) (getDomain e url))) \<and>
               path_join (outputDir c) (getDomain e url) \<in> dirs w' \<and>
               Mkdir (path_join (outputDir c) (getDomain e url)) \<in> set (news w w')) \<and>
            (\<not> admitted e url w \<longrightarrow> dirs w' = dirs w) \<and>
            (wouldDownloadLine e c url w \<in> set (news w w') \<longleftrightarrow>
               admitted e url w \<and> \<not> resumeSkips e c url w) \<and>
            (\<not> (admitted e url w \<and> \<not> resumeSkips e c url w) \<longrightarrow>
               processDownload e (c\<lparr>dryRun := False\<rparr>) url w = Some w')"
    by blast
next
  show "deduplicate e outDir True w = (0, w)" by (simp add: deduplicate_def)
next
  from scan_dry_frame[of e directory w]
  show "files (snd (scan e directory True w)) = files w" by blast
next
  from scan_dry_frame[of e directory w]
  show "dirs (snd (scan e directory True w)) = dirs w" by blast
next
  show "decisions (trace (snd (scan e directory True w))) =
          decisions (trace (snd (scan e directory False w)))"
    unfolding scan_decisions ..
next
  assume d: "directory \<in> dirs w"
  from scan_post[OF d, of e True] obtain r where
    r: "fst (scan e directory True w) = Inr r"
       "found r = fst (tallyGroups (allGroups e directory (files w)))"
       "freedBytes r = snd (tallyGroups (allGroups e directory (files w)))" "deleted r = 0"
    by auto
  from scan_post[OF d, of e False] obtain r' where
    r': "fst (scan e directory False w) = Inr r'"
       "found r' = fst (tallyGroups (allGroups e directory (files w)))"
       "freedBytes r' = snd (tallyGroups (allGroups e directory (files w)))"
    by auto
  from r r' show "\<exists>r r'. fst (scan e directory True w) = Inr r \<and>
      fst (scan e directory False w) = Inr r' \<and>
      found r = found r' \<and> freedBytes r = freedBytes r' \<and> deleted r = 0"
    by simp
qed

theorem dry_run_changes_no_file_witness:
  "dryRun (ex_cfg\<lparr>dryRun := True\<rparr>) \<and>
   admitted ex_env ''http://a.com/big.png'' ex_stored \<and>
   \<not> resumeSkips ex_env (ex_cfg\<lparr>dryRun := True\<rparr>) ''http://a.com/big.png'' ex_stored \<and>
   files (the (processDownload ex_env (ex_cfg\<lparr>dryRun := True\<rparr>) ''http://a.com/big.png'' ex_stored))
     = ex_disk \<and>
   wouldDownloadLine ex_env (ex_cfg\<lparr>dryRun := True\<rparr>) ''http://a.com/big.png'' ex_stored
     \<in> set (news ex_stored
          (the (processDownload ex_env (ex_cfg\<lparr>dryRun := True\<rparr>) ''http://a.com/big.png'' ex_stored))) \<and>
   ''out/a.com'' \<notin> dirs ex_stored \<and>
   ''out/a.com'' \<in> dirs (the (processDownload ex_env (ex_cfg\<lparr>dryRun := True\<rparr>)
                                ''http://a.com/big.png'' ex_stored)) \<and>
   ''out'' \<in> dirs ex_stored \<and>
   found (projr (fst (scan ex_env ''out'' True ex_stored))) = 1 \<and>
   deleted (projr (fst (scan ex_env ''out'' True ex_stored))) = 0 \<and>
   freedBytes (projr (fst (scan ex_env ''out'' True ex_stored))) = 3"
proof -
  let ?c = "ex_cfg\<lparr>dryRun := True\<rparr>"
  let ?u = "''http://a.com/big.png''"
  note T = dry_run_changes_no_file[of ?c ex_env ?u ex_stored "''out''" "''out''"]
  have h: "dryRun ?c" "admitted ex_env ?u ex_stored" "\<not> resumeSkips ex_env ?c ?u ex_stored"
    "''out'' \<in> dirs ex_stored" by code_simp+
  have f: "files ex_stored = ex_disk" by code_simp
  have dn: "path_join (outputDir ?c) (getDomain ex_env ?u) = ''out/a.com''"
    "''out/a.com'' \<notin> dirs ex_stored" by code_simp+
  from T[THEN conjunct1] h obtain w' where w': "processDownload ex_env ?c ?u ex_stored = Some w'"
    "files w' = files ex_stored" "wouldDownloadLine ex_env ?c ?u ex_stored \<in> set (news ex_stored w')"
    "path_join (outputDir ?c) (getDomain ex_env ?u) \<in> dirs w'"
    by blast
  from w'(4) dn have dd: "''out/a.com'' \<in> dirs w'" by simp
  from T h obtain r r' where r: "fst (scan ex_env ''out'' True ex_stored) = Inr r"
    "fst (scan ex_env ''out'' False ex_stored) = Inr r'" "found r = found r'"
    "freedBytes r = freedBytes r'" "deleted r = 0" by blast
  have n: "fst (scan ex_env ''out'' False ex_stored) = Inr \<lparr>found = 1, deleted = 1, freedBytes = 3\<rparr>"
    by code_simp
  from r(2) n have "r' = \<lparr>found = 1, deleted = 1, freedBytes = 3\<rparr>" by simp
  then have "found r' = 1" "freedBytes r' = 3" by simp_all
  with r have "found r = 1" "freedBytes r = 3" "deleted r = 0" by simp_all
  with r(1) w'(1,2,3) dd dn(2) h f show ?thesis by simp
qed

text \<open>
  The claim as the spec states it fails twice in the sample session. A dry-run download
  creates the directory \<open>out/a.com\<close>; and on a directory in which a real run of
  \<open>deduplicate\<close> removes \<open>big_1.png\<close>, the dry run logs nothing.
\<close>

theorem dry_run_creates_directory_and_dedup_is_silent:
  "dryRun (ex_cfg\<lparr>dryRun := True\<rparr>) \<and> ''out/a.com'' \<notin> dirs ex_world \<and>
   ''out/a.com'' \<in> dirs (the (processDownload ex_env (ex_cfg\<lparr>dryRun := True\<rparr>)
                                ''http://a.com/big.png'' ex_world)) \<and>
   trace (snd (deduplicate ex_env ''out'' True ex_stored)) = [] \<and>
   Unlink ''out/a.com/big_1.png'' \<in> set (trace (snd (deduplicate ex_env ''out'' False ex_stored)))"
  by code_simp

section \<open>Visual groups: clusters in the pipeline, equal hashes in the scanner\<close>

lemma groupBy_complete:
  assumes "(k, g) \<in> set (groupBy key xs)"
  shows "set g = {x \<in> set xs. key x = Some k}" and "k \<noteq> []"
proof -
  from keyed_groupBy[of key xs] assms have ne: "g \<noteq> []" and ky: "\<forall>y \<in> set g. key y = Some k"
    unfolding keyed_def by blast+
  from assms have sub: "set g \<subseteq> set (members (groupBy key xs))" by (auto simp: set_members)
  then have tr: "\<forall>y \<in> set g. y \<in> set xs \<and> truthy (key y)" unfolding set_groupBy by auto
  from ne obtain y where "y \<in> set g" by (cases g) auto
  with ky tr have "truthy (Some k)" by force
  then show k: "k \<noteq> []" by (simp add: truthy_def)
  show "set g = {x \<in> set xs. key x = Some k}"
  proof (intro set_eqI iffI)
    fix x assume "x \<in> set g"
    with ky tr show "x \<in> {x \<in> set xs. key x = Some k}" by simp
  next
    fix x assume "x \<in> {x \<in> set xs. key x = Some k}"
    then have x: "x \<in> set xs" "key x = Some k" by simp_all
    with k have "x \<in> set (members (groupBy key xs))"
      unfolding set_groupBy by (simp add: truthy_def)
    then obtain k' g' where kg': "(k', g') \<in> set (groupBy key xs)" and xg: "x \<in> set g'"
      by (auto simp: set_members)
    from keyed_groupBy[of key xs] kg' xg have "key x = Some k'" unfolding keyed_def by blast
    with x have "k' = k" by simp
    with kg' assms distinct_keys_groupBy[of key xs] have "g' = g"
      by (meson eq_key_imp_eq_value)
    with xg show "x \<in> set g" by simp
  qed
qed

lemma clustersFrom_seed:
  assumes "i < length hs" "i \<notin> used"
  shows "clustersFrom e hs i used =
           (hs ! i # map (\<lambda>k. hs ! k) (joiners e hs i (Suc i) (insert i used))) #
           clustersFrom e hs (Suc i) (insert i used \<union> set (joiners e hs i (Suc i) (insert i used)))"
  using assms by (subst clustersFrom.simps) (simp add: collect_joiners)

lemma clustersFrom_skip:
  assumes "i < length hs" "i \<in> used"
  shows "clustersFrom e hs i used = clustersFrom e hs (Suc i) used"
  using assms by (subst clustersFrom.simps) simp

lemma clustersFrom_end:
  assumes "\<not> i < length hs"
  shows "clustersFrom e hs i used = []"
  using assms by (subst clustersFrom.simps) simp

lemma best_byQualityH:
  assumes "y \<in> set g"
  shows "h_pixels y < h_pixels (hd (sort_by byQualityH g)) \<or>
         (h_pixels y = h_pixels (hd (sort_by byQualityH g)) \<and>
          h_size y \<le> h_size (hd (sort_by byQualityH g)))"
  using hd_sort_by_best[OF preorder_byQualityH assms]
  by (auto simp: byQualityH_def split: if_splits)

lemma best_qualityOrder:
  assumes "y \<in> set g"
  shows "pixelsOr0 y < pixelsOr0 (hd (sort_by qualityOrder g)) \<or>
         (pixelsOr0 y = pixelsOr0 (hd (sort_by qualityOrder g)) \<and>
          fi_size y \<le> fi_size (hd (sort_by qualityOrder g)))"
  using hd_sort_by_best[OF preorder_qualityOrder assms]
  by (auto simp: qualityOrder_def split: if_splits)

lemma visualGroupsOf_member:
  assumes "g \<in> set (visualGroupsOf e fs fileInfos X)"
  obtains k gf where
    "(k, gf) \<in> set (groupBy fi_visualHash (map (analyse e fs) (filter (notExcluded X) fileInfos)))"
    "2 \<le> length gf" "original g = hd (sort_by qualityOrder gf)"
    "duplicates g = tl (sort_by qualityOrder gf)" "entries g = sort_by qualityOrder gf"
proof -
  have sq: "sortByQuality = sort_by qualityOrder" by (rule ext) (simp add: sortByQuality_def)
  from assms obtain k gf where
    kg: "(k, gf) \<in> set (groupBy fi_visualHash (map (analyse e fs) (filter (notExcluded X) fileInfos)))"
    and l: "\<not> length gf < 2"
    and g: "g = \<lparr>original = hd (sort_by qualityOrder gf), duplicates = tl (sort_by qualityOrder gf),
                 reason = Visual\<rparr>"
    unfolding visualGroupsOf_def duplicateGroups_def sq by auto
  from l have "gf \<noteq> []" by auto
  from sort_by_split[OF this, of qualityOrder] g
  have "entries g = sort_by qualityOrder gf" by (simp add: entries_def)
  with kg l g that show ?thesis by simp
qed

lemma visualGroupsOf_exact:
  assumes "g \<in> set (visualGroupsOf e fs fileInfos X)"
  shows "truthy (fi_visualHash (original g)) \<and> duplicates g \<noteq> [] \<and>
         set (entries g) = {m \<in> set (map (analyse e fs) (filter (notExcluded X) fileInfos)).
                              fi_visualHash m = fi_visualHash (original g)} \<and>
         (\<forall>m \<in> set (entries g).
             pixelsOr0 m < pixelsOr0 (original g) \<or>
             (pixelsOr0 m = pixelsOr0 (original g) \<and> fi_size m \<le> fi_size (original g)))"
proof -
  let ?xs = "map (analyse e fs) (filter (notExcluded X) fileInfos)"
  from assms obtain k gf where kg: "(k, gf) \<in> set (groupBy fi_visualHash ?xs)"
    and l: "2 \<le> length gf" and o: "original g = hd (sort_by qualityOrder gf)"
    and d: "duplicates g = tl (sort_by qualityOrder gf)"
    and en: "entries g = sort_by qualityOrder gf"
    by (rule visualGroupsOf_member)
  from l have ne: "gf \<noteq> []" by auto
  from groupBy_complete[OF kg] have s: "set gf = {x \<in> set ?xs. fi_visualHash x = Some k}"
    and k: "k \<noteq> []" by simp_all
  from hd_sort_by_in[OF ne, of qualityOrder] o have "original g \<in> set gf" by simp
  with s have ok: "fi_visualHash (original g) = Some k" by simp
  from l have "2 \<le> length (sort_by qualityOrder gf)" by simp
  then have dn: "duplicates g \<noteq> []" unfolding d
    by (cases "sort_by qualityOrder gf"; cases "tl (sort_by qualityOrder gf)") auto
  have b: "\<forall>m \<in> set (entries g).
             pixelsOr0 m < pixelsOr0 (original g) \<or>
             (pixelsOr0 m = pixelsOr0 (original g) \<and> fi_size m \<le> fi_size (original g))"
    unfolding en o using best_qualityOrder[of _ gf] by simp
  from ok k have "truthy (fi_visualHash (original g))" by (simp add: truthy_def)
  moreover have "set (entries g) = {m \<in> set ?xs. fi_visualHash m = fi_visualHash (original g)}"
    unfolding en ok using s by simp
  ultimately show ?thesis using dn b by blast
qed

lemma visualGroupsOf_covers:
  assumes m: "m \<in> set (map (analyse e fs) (filter (notExcluded X) fileInfos))"
    and m': "m' \<in> set (map (analyse e fs) (filter (notExcluded X) fileInfos))"
    and ne: "m \<noteq> m'" and t: "truthy (fi_visualHash m)" and eq: "fi_visualHash m = fi_visualHash m'"
  shows "\<exists>g \<in> set (visualGroupsOf e fs fileInfos X). m \<in> set (entries g) \<and> m' \<in> set (entries g)"
proof -
  let ?xs = "map (analyse e fs) (filter (notExcluded X) fileInfos)"
  have sq: "sortByQuality = sort_by qualityOrder" by (rule ext) (simp add: sortByQuality_def)
  from m t have "m \<in> set (members (groupBy fi_visualHash ?xs))" unfolding set_groupBy by simp
  then obtain k gf where kg: "(k, gf) \<in> set (groupBy fi_visualHash ?xs)" and mg: "m \<in> set gf"
    by (auto simp: set_members)
  from groupBy_complete(1)[OF kg] have s: "set gf = {x \<in> set ?xs. fi_visualHash x = Some k}" .
  with mg eq m' have mg': "m' \<in> set gf" by simp
  have l: "\<not> length gf < 2"
  proof
    assume "length gf < 2"
    with mg obtain x where "gf = [x]" by (cases gf; cases "tl gf") auto
    with mg mg' ne show False by simp
  qed
  then have nn: "gf \<noteq> []" by auto
  let ?g = "\<lparr>original = hd (sort_by qualityOrder gf), duplicates = tl (sort_by qualityOrder gf),
             reason = Visual\<rparr>"
  from kg l have "?g \<in> set (visualGroupsOf e fs fileInfos X)"
    unfolding visualGroupsOf_def duplicateGroups_def sq by force
  moreover from sort_by_split[OF nn, of qualityOrder]
  have "entries ?g = sort_by qualityOrder gf" by (simp add: entries_def)
  with mg mg' have "m \<in> set (entries ?g) \<and> m' \<in> set (entries ?g)" by simp
  ultimately show ?thesis by blast
qed




end
